theory Spec2Isabelle
  imports Main "HOL-Library.Word"
begin

unbundle bit_operations_syntax

section \<open>Validation outcome: \<open>consensus/validation.h\<close>\<close>

text \<open>The enumeration \<open>ValidationInvalidReason\<close>, in the order of the header.\<close>

datatype ValidationInvalidReason =
    NONE
  | CONSENSUS
  | RECENT_CONSENSUS_CHANGE
  | CACHED_INVALID
  | BLOCK_MUTATED
  | BLOCK_MISSING_PREV
  | BLOCK_INVALID_PREV
  | BLOCK_BAD_TIME
  | BLOCK_CHECKPOINT
  | TX_NOT_STANDARD
  | TX_MISSING_INPUTS
  | TX_WITNESS_MUTATED
  | TX_CONFLICT
  | TX_MEMPOOL_POLICY

datatype mode_state = MODE_VALID | MODE_INVALID | MODE_ERROR

text \<open>
  The private fields of \<open>class CValidationState\<close>. \<open>nDoS\<close> is a C++ \<open>int\<close>: a 32-bit
  word here, read as two's complement by \<open>sint\<close> (signed overflow is undefined in
  C++; the word wraps).
  \<open>chRejectCode\<close> is an \<open>unsigned int\<close>.
\<close>

record CValidationState =
  mode :: mode_state
  reason :: ValidationInvalidReason
  nDoS :: "32 word"
  strRejectReason :: string
  chRejectCode :: "32 word"
  corruptionPossible :: bool
  strDebugMessage :: string

text \<open>The constructor \<open>CValidationState()\<close>; the two strings are default-constructed.\<close>

definition CValidationState_init :: CValidationState where
  "CValidationState_init =
     \<lparr> mode = MODE_VALID, reason = NONE, nDoS = 0, strRejectReason = [],
       chRejectCode = 0, corruptionPossible = False, strDebugMessage = [] \<rparr>"

text \<open>
  A member function that mutates the object and returns a \<open>bool\<close> is a function from the
  state to the returned value and the new state. \<open>DoS\<close> assigns the five diagnostic
  fields first, then returns early in \<open>MODE_ERROR\<close>.
\<close>

definition DoS ::
  "32 word \<Rightarrow> ValidationInvalidReason \<Rightarrow> bool \<Rightarrow> 32 word \<Rightarrow> string \<Rightarrow> bool \<Rightarrow> string
     \<Rightarrow> CValidationState \<Rightarrow> bool \<times> CValidationState" where
  "DoS level reasonIn ret chRejectCodeIn strRejectReasonIn corruptionIn strDebugMessageIn s =
     (let s1 = s\<lparr> reason := reasonIn,
                  chRejectCode := chRejectCodeIn,
                  strRejectReason := strRejectReasonIn,
                  corruptionPossible := corruptionIn,
                  strDebugMessage := strDebugMessageIn \<rparr>
      in if mode s1 = MODE_ERROR then (ret, s1)
         else (ret, s1\<lparr> nDoS := nDoS s1 + level, mode := MODE_INVALID \<rparr>))"

definition Invalid ::
  "ValidationInvalidReason \<Rightarrow> bool \<Rightarrow> 32 word \<Rightarrow> string \<Rightarrow> string
     \<Rightarrow> CValidationState \<Rightarrow> bool \<times> CValidationState" where
  "Invalid reason' ret chRejectCode' strRejectReason' strDebugMessage' s =
     DoS 0 reason' ret chRejectCode' strRejectReason' False strDebugMessage' s"

definition Error :: "string \<Rightarrow> CValidationState \<Rightarrow> bool \<times> CValidationState" where
  "Error strRejectReasonIn s =
     (let s1 = (if mode s = MODE_VALID then s\<lparr> strRejectReason := strRejectReasonIn \<rparr> else s)
      in (False, s1\<lparr> mode := MODE_ERROR \<rparr>))"

definition IsValid :: "CValidationState \<Rightarrow> bool" where
  "IsValid s = (mode s = MODE_VALID)"

definition IsInvalid :: "CValidationState \<Rightarrow> bool" where
  "IsInvalid s = (mode s = MODE_INVALID)"

definition IsError :: "CValidationState \<Rightarrow> bool" where
  "IsError s = (mode s = MODE_ERROR)"

text \<open>\<open>IsInvalid(int &nDoSOut)\<close>: the out-parameter is written only in \<open>MODE_INVALID\<close>.\<close>

definition IsInvalid_out :: "32 word \<Rightarrow> CValidationState \<Rightarrow> bool \<times> 32 word" where
  "IsInvalid_out nDoSOut s = (if IsInvalid s then (True, nDoS s) else (False, nDoSOut))"

definition CorruptionPossible :: "CValidationState \<Rightarrow> bool" where
  "CorruptionPossible s = corruptionPossible s"

definition SetCorruptionPossible :: "CValidationState \<Rightarrow> CValidationState" where
  "SetCorruptionPossible s = s\<lparr> corruptionPossible := True \<rparr>"

definition GetReason :: "CValidationState \<Rightarrow> ValidationInvalidReason" where
  "GetReason s = reason s"

definition GetDoS :: "CValidationState \<Rightarrow> 32 word" where
  "GetDoS s = nDoS s"

definition GetRejectCode :: "CValidationState \<Rightarrow> 32 word" where
  "GetRejectCode s = chRejectCode s"

definition GetRejectReason :: "CValidationState \<Rightarrow> string" where
  "GetRejectReason s = strRejectReason s"

definition GetDebugMessage :: "CValidationState \<Rightarrow> string" where
  "GetDebugMessage s = strDebugMessage s"

text \<open>
  A sequence of calls on one object: each operation with its arguments, run in order,
  the returned booleans dropped.
\<close>

datatype vs_op =
    OpDoS "32 word" ValidationInvalidReason bool "32 word" string bool string
  | OpInvalid ValidationInvalidReason bool "32 word" string string
  | OpError string
  | OpSetCorruptionPossible

fun vs_apply :: "vs_op \<Rightarrow> CValidationState \<Rightarrow> CValidationState" where
  "vs_apply (OpDoS l r ret c rr corr dbg) s = snd (DoS l r ret c rr corr dbg s)"
| "vs_apply (OpInvalid r ret c rr dbg) s = snd (Invalid r ret c rr dbg s)"
| "vs_apply (OpError m) s = snd (Error m s)"
| "vs_apply OpSetCorruptionPossible s = SetCorruptionPossible s"

fun vs_run :: "vs_op list \<Rightarrow> CValidationState \<Rightarrow> CValidationState" where
  "vs_run [] s = s"
| "vs_run (x # xs) s = vs_run xs (vs_apply x s)"


section \<open>Script verification: \<open>kernel/bitcoinkernel.h\<close> and \<open>kernel/bitcoinkernel.cpp\<close>\<close>

text \<open>The status codes of \<open>kernel_ScriptVerifyStatus\<close>, in the order of the header.\<close>

datatype kernel_ScriptVerifyStatus =
    kernel_SCRIPT_VERIFY_OK
  | kernel_SCRIPT_VERIFY_ERROR_TX_INPUT_INDEX
  | kernel_SCRIPT_VERIFY_ERROR_INVALID_FLAGS
  | kernel_SCRIPT_VERIFY_ERROR_INVALID_FLAGS_COMBINATION
  | kernel_SCRIPT_VERIFY_ERROR_SPENT_OUTPUTS_REQUIRED
  | kernel_SCRIPT_VERIFY_ERROR_SPENT_OUTPUTS_MISMATCH

text \<open>The flags of \<open>kernel_ScriptFlags\<close>; the bitmask is an \<open>unsigned int\<close>.\<close>

definition kernel_SCRIPT_FLAGS_VERIFY_NONE :: "32 word" where
  "kernel_SCRIPT_FLAGS_VERIFY_NONE = 0"

definition kernel_SCRIPT_FLAGS_VERIFY_P2SH :: "32 word" where
  "kernel_SCRIPT_FLAGS_VERIFY_P2SH = push_bit 0 1"

definition kernel_SCRIPT_FLAGS_VERIFY_DERSIG :: "32 word" where
  "kernel_SCRIPT_FLAGS_VERIFY_DERSIG = push_bit 2 1"

definition kernel_SCRIPT_FLAGS_VERIFY_NULLDUMMY :: "32 word" where
  "kernel_SCRIPT_FLAGS_VERIFY_NULLDUMMY = push_bit 4 1"

definition kernel_SCRIPT_FLAGS_VERIFY_CHECKLOCKTIMEVERIFY :: "32 word" where
  "kernel_SCRIPT_FLAGS_VERIFY_CHECKLOCKTIMEVERIFY = push_bit 9 1"

definition kernel_SCRIPT_FLAGS_VERIFY_CHECKSEQUENCEVERIFY :: "32 word" where
  "kernel_SCRIPT_FLAGS_VERIFY_CHECKSEQUENCEVERIFY = push_bit 10 1"

definition kernel_SCRIPT_FLAGS_VERIFY_WITNESS :: "32 word" where
  "kernel_SCRIPT_FLAGS_VERIFY_WITNESS = push_bit 11 1"

definition kernel_SCRIPT_FLAGS_VERIFY_TAPROOT :: "32 word" where
  "kernel_SCRIPT_FLAGS_VERIFY_TAPROOT = push_bit 17 1"

definition kernel_SCRIPT_FLAGS_VERIFY_ALL :: "32 word" where
  "kernel_SCRIPT_FLAGS_VERIFY_ALL =
     kernel_SCRIPT_FLAGS_VERIFY_P2SH OR
     kernel_SCRIPT_FLAGS_VERIFY_DERSIG OR
     kernel_SCRIPT_FLAGS_VERIFY_NULLDUMMY OR
     kernel_SCRIPT_FLAGS_VERIFY_CHECKLOCKTIMEVERIFY OR
     kernel_SCRIPT_FLAGS_VERIFY_CHECKSEQUENCEVERIFY OR
     kernel_SCRIPT_FLAGS_VERIFY_WITNESS OR
     kernel_SCRIPT_FLAGS_VERIFY_TAPROOT"

text \<open>
  \<open>is_valid_flag_combination\<close> tests the interpreter's own constants
  \<open>SCRIPT_VERIFY_P2SH\<close>, \<open>SCRIPT_VERIFY_WITNESS\<close> and \<open>SCRIPT_VERIFY_CLEANSTACK\<close>, which
  \<open>script/interpreter.h\<close> declares and which is not among the sources at hand. They are a
  parameter of the model.
\<close>

record interpreter_flags =
  SCRIPT_VERIFY_P2SH :: "32 word"
  SCRIPT_VERIFY_WITNESS :: "32 word"
  SCRIPT_VERIFY_CLEANSTACK :: "32 word"

text \<open>
  Modelled from the spec: the values of the three constants of \<open>script/interpreter.h\<close>.
  The spec calls the flags of the combination rule "a P2SH-style and a witness-style
  flag": \<open>kernel_verify_script\<close> hands its bitmask to the interpreter unchanged, so these
  two are the bits of the kernel header's flags of the same name. "Clean stack" is a
  flag of its own; the header's list of recognised flags does not name it, and it takes
  bit 8, which that list leaves free.
\<close>

definition script_interpreter_h :: interpreter_flags where
  "script_interpreter_h =
     \<lparr> SCRIPT_VERIFY_P2SH = push_bit 0 1,
       SCRIPT_VERIFY_WITNESS = push_bit 11 1,
       SCRIPT_VERIFY_CLEANSTACK = push_bit 8 1 \<rparr>"

definition verify_flags :: "32 word \<Rightarrow> bool" where
  "verify_flags flags = (flags AND NOT kernel_SCRIPT_FLAGS_VERIFY_ALL = 0)"

text \<open>
  In C++ \<open>&\<close> binds tighter than \<open>&&\<close>, and a non-zero integer is true.
\<close>

definition is_valid_flag_combination :: "interpreter_flags \<Rightarrow> 32 word \<Rightarrow> bool" where
  "is_valid_flag_combination F flags =
     (if flags AND SCRIPT_VERIFY_CLEANSTACK F \<noteq> 0 \<and>
         NOT flags AND (SCRIPT_VERIFY_P2SH F OR SCRIPT_VERIFY_WITNESS F) \<noteq> 0 then False
      else if flags AND SCRIPT_VERIFY_WITNESS F \<noteq> 0 \<and>
              NOT flags AND SCRIPT_VERIFY_P2SH F \<noteq> 0 then False
      else True)"

subsection \<open>Transactions\<close>

type_synonym Txid = "256 word"

type_synonym CScript = "8 word list"

record COutPoint =
  op_hash :: Txid
  op_n :: "32 word"

record CTxOut =
  nValue :: "64 word"
  scriptPubKey :: CScript

record CTxIn =
  prevout :: COutPoint
  scriptSig :: CScript
  scriptWitness :: "8 word list list"

text \<open>
  Modelled from the spec: \<open>primitives/transaction.h\<close> is not among the sources. A
  transaction "exposes an ordered input list (each bearing an outpoint) and a coinbase
  flag"; its id is the value \<open>GetHash()\<close> returns.
\<close>

record CTransaction =
  vin :: "CTxIn list"
  tx_hash :: Txid
  coinbase :: bool

definition GetHash :: "CTransaction \<Rightarrow> Txid" where
  "GetHash tx = tx_hash tx"

definition IsCoinBase :: "CTransaction \<Rightarrow> bool" where
  "IsCoinBase tx = coinbase tx"

subsection \<open>\<open>kernel_verify_script\<close>\<close>

text \<open>
  The script interpreter is outside the sources: \<open>VerifyScript\<close> is a parameter, a
  function from the arguments of the one call to its verdict. The record holds those
  arguments: the input's two scripts and witness, the flags, and the signature checker's
  transaction, input index, amount and precomputed data (\<open>txdata\<close>, which carries the
  spent outputs only after \<open>Init\<close>).
\<close>

record interpreter_call =
  ic_scriptSig :: CScript
  ic_scriptPubKey :: CScript
  ic_witness :: "8 word list list"
  ic_flags :: "32 word"
  ic_tx :: CTransaction
  ic_nIn :: "32 word"
  ic_amount :: "64 word"
  ic_spent_outputs :: "CTxOut list option"

text \<open>
  What a call leaves behind: the returned \<open>bool\<close>, the caller's status slot, and the
  calls made to the interpreter. The slot is a nullable pointer: \<open>None\<close> is \<open>nullptr\<close>,
  \<open>Some v\<close> a slot that holds \<open>v\<close>.
\<close>

record verify_script_result =
  vs_ret :: bool
  vs_status :: "kernel_ScriptVerifyStatus option"
  vs_calls :: "interpreter_call list"

text \<open>\<open>if (status) *status = code\<close>.\<close>

definition set_status ::
  "kernel_ScriptVerifyStatus \<Rightarrow> kernel_ScriptVerifyStatus option
     \<Rightarrow> kernel_ScriptVerifyStatus option" where
  "set_status code status = (case status of None \<Rightarrow> None | Some _ \<Rightarrow> Some code)"

text \<open>
  \<open>spent_outputs_\<close> is a nullable pointer to a C array and \<open>spent_outputs_len\<close> the length
  the caller states for it (a \<open>size_t\<close>); the copy loop reads that many elements. The
  sizes of vectors are natural numbers, compared with the unsigned arguments by value.
\<close>

definition kernel_verify_script ::
  "(interpreter_call \<Rightarrow> bool) \<Rightarrow> interpreter_flags \<Rightarrow> CScript \<Rightarrow> 64 word \<Rightarrow> CTransaction
     \<Rightarrow> CTxOut list option \<Rightarrow> 64 word \<Rightarrow> 32 word \<Rightarrow> 32 word
     \<Rightarrow> kernel_ScriptVerifyStatus option \<Rightarrow> verify_script_result" where
  "kernel_verify_script VerifyScript F script_pubkey amount tx spent_outputs' spent_outputs_len
       input_index flags status =
     (if \<not> verify_flags flags then
        \<lparr> vs_ret = False,
          vs_status = set_status kernel_SCRIPT_VERIFY_ERROR_INVALID_FLAGS status,
          vs_calls = [] \<rparr>
      else if \<not> is_valid_flag_combination F flags then
        \<lparr> vs_ret = False,
          vs_status = set_status kernel_SCRIPT_VERIFY_ERROR_INVALID_FLAGS_COMBINATION status,
          vs_calls = [] \<rparr>
      else if flags AND kernel_SCRIPT_FLAGS_VERIFY_TAPROOT \<noteq> 0 \<and> spent_outputs' = None then
        \<lparr> vs_ret = False,
          vs_status = set_status kernel_SCRIPT_VERIFY_ERROR_SPENT_OUTPUTS_REQUIRED status,
          vs_calls = [] \<rparr>
      else if spent_outputs' \<noteq> None \<and> unat spent_outputs_len \<noteq> length (vin tx) then
        \<lparr> vs_ret = False,
          vs_status = set_status kernel_SCRIPT_VERIFY_ERROR_SPENT_OUTPUTS_MISMATCH status,
          vs_calls = [] \<rparr>
      else
        let spent_outputs =
              (case spent_outputs' of None \<Rightarrow> []
               | Some arr \<Rightarrow> take (unat spent_outputs_len) arr)
        in if unat input_index \<ge> length (vin tx) then
             \<lparr> vs_ret = False,
               vs_status = set_status kernel_SCRIPT_VERIFY_ERROR_TX_INPUT_INDEX status,
               vs_calls = [] \<rparr>
           else
             let txdata =
                   (if spent_outputs' \<noteq> None \<and> flags AND kernel_SCRIPT_FLAGS_VERIFY_TAPROOT \<noteq> 0
                    then Some spent_outputs else None);
                 call = \<lparr> ic_scriptSig = scriptSig (vin tx ! unat input_index),
                          ic_scriptPubKey = script_pubkey,
                          ic_witness = scriptWitness (vin tx ! unat input_index),
                          ic_flags = flags,
                          ic_tx = tx,
                          ic_nIn = input_index,
                          ic_amount = amount,
                          ic_spent_outputs = txdata \<rparr>
             in \<lparr> vs_ret = VerifyScript call, vs_status = status, vs_calls = [call] \<rparr>)"

text \<open>
  The five pre-checks as the claim about the status slot names them: recognised flags, a
  valid combination, spent outputs present under the taproot flag, their stated length
  equal to the input count when present, and the input index in range.
\<close>

definition prechecks_pass ::
  "interpreter_flags \<Rightarrow> CTransaction \<Rightarrow> CTxOut list option \<Rightarrow> 64 word \<Rightarrow> 32 word \<Rightarrow> 32 word
     \<Rightarrow> bool" where
  "prechecks_pass F tx spent_outputs' spent_outputs_len input_index flags =
     (verify_flags flags \<and>
      is_valid_flag_combination F flags \<and>
      (flags AND kernel_SCRIPT_FLAGS_VERIFY_TAPROOT \<noteq> 0 \<longrightarrow> spent_outputs' \<noteq> None) \<and>
      (spent_outputs' \<noteq> None \<longrightarrow> unat spent_outputs_len = length (vin tx)) \<and>
      unat input_index < length (vin tx))"


section \<open>Input fetcher: \<open>inputfetcher.h\<close>\<close>

subsection \<open>Coins, the store and the cache\<close>

text \<open>
  Modelled from the spec: \<open>coins.h\<close> and \<open>txdb.h\<close> are not among the sources. A coin is
  "value, locking script, creation height, coinbase-origin flag". The persistent store
  is the read-only point lookup \<open>get_coin(outpoint) -> Option<Coin>\<close>. The cache is
  keyed by outpoint; \<open>have_in_cache\<close> tells whether a key is present and
  \<open>insert(outpoint, coin, dirty)\<close> stores the coin under the key with its dirty mark.
\<close>

record Coin =
  out :: CTxOut
  fCoinBase :: bool
  nHeight :: "32 word"

type_synonym CCoinsViewDB = "COutPoint \<Rightarrow> Coin option"

type_synonym CCoinsViewCache = "COutPoint \<rightharpoonup> Coin \<times> bool"

definition GetCoin :: "CCoinsViewDB \<Rightarrow> COutPoint \<Rightarrow> Coin option" where
  "GetCoin db outpoint = db outpoint"

definition HaveCoinInCache :: "CCoinsViewCache \<Rightarrow> COutPoint \<Rightarrow> bool" where
  "HaveCoinInCache c outpoint = (c outpoint \<noteq> None)"

definition EmplaceCoinInternalDANGER ::
  "COutPoint \<Rightarrow> Coin \<Rightarrow> bool \<Rightarrow> CCoinsViewCache \<Rightarrow> CCoinsViewCache" where
  "EmplaceCoinInternalDANGER outpoint coin set_dirty c = c(outpoint \<mapsto> (coin, set_dirty))"

record CBlock =
  vtx :: "CTransaction list"

subsection \<open>The object and its threads\<close>

text \<open>
  A worker thread runs \<open>Loop\<close>. Between two releases of the mutex it is at one of these
  points: about to take the lock at the top of the \<open>do\<close> body; inside
  \<open>m_worker_cv.wait\<close>; reading the store for its claimed batch, the lock released; or
  returned. \<open>Faulted\<close> stands for undefined behaviour (a division by zero, an iterator
  before \<open>begin()\<close>).
\<close>

datatype worker_pc = AtLoopTop | AtWait | AtFetch | Exited | Faulted

text \<open>The locals of \<open>Loop\<close>, with the point the thread is at.\<close>

record worker =
  w_pc :: worker_pc
  w_in_flight_fetches_count :: "64 word"
  w_pairs :: "(COutPoint \<times> Coin) list"
  w_outpoints :: "COutPoint list"

text \<open>
  The members of \<open>class InputFetcher\<close>; \<open>size_t\<close> is a 64-bit word. The mutex and the
  two condition variables carry no data. \<open>m_worker_threads\<close> holds, for each thread, the
  state of its \<open>Loop\<close>.
\<close>

record InputFetcher =
  m_outpoints :: "COutPoint list"
  m_pairs :: "(COutPoint \<times> Coin) list"
  m_in_flight_fetches_count :: "64 word"
  m_batch_size :: "64 word"
  m_db :: CCoinsViewDB
  m_worker_threads :: "worker list"
  m_request_stop :: bool

definition worker_init :: worker where
  "worker_init =
     \<lparr> w_pc = AtLoopTop, w_in_flight_fetches_count = 0, w_pairs = [], w_outpoints = [] \<rparr>"

text \<open>
  The constructor: \<open>worker_thread_count\<close> threads, each at the start of \<open>Loop\<close>. The
  store pointer is null until \<open>FetchInputs\<close> sets it; here the store is empty until then.
\<close>

definition InputFetcher_init :: "64 word \<Rightarrow> 64 word \<Rightarrow> InputFetcher" where
  "InputFetcher_init batch_size worker_thread_count =
     \<lparr> m_outpoints = [], m_pairs = [], m_in_flight_fetches_count = 0,
       m_batch_size = batch_size, m_db = (\<lambda>_. None),
       m_worker_threads = replicate (unat worker_thread_count) worker_init,
       m_request_stop = False \<rparr>"

definition HasThreads :: "InputFetcher \<Rightarrow> bool" where
  "HasThreads f = (m_worker_threads f \<noteq> [])"

subsection \<open>\<open>Loop\<close>\<close>

text \<open>
  Lines 76 to 86, under the lock: the clean-up of the previous run of the loop. Both
  branches of \<open>if (m_pairs.empty())\<close> leave \<open>m_pairs\<close> followed by \<open>pairs\<close>. The
  subtraction is on \<open>size_t\<close> and wraps.
\<close>

definition Loop_merge :: "worker \<Rightarrow> InputFetcher \<Rightarrow> InputFetcher" where
  "Loop_merge w f =
     (if w_in_flight_fetches_count w \<noteq> 0
      then f\<lparr> m_pairs := (if m_pairs f = [] then w_pairs w else m_pairs f @ w_pairs w),
              m_in_flight_fetches_count :=
                m_in_flight_fetches_count f - w_in_flight_fetches_count w \<rparr>
      else f)"

text \<open>
  Lines 96 to 98: the size of the batch to claim, from \<open>m_outpoints.size()\<close>,
  \<open>m_batch_size\<close>, \<open>m_in_flight_fetches_count\<close> and \<open>m_worker_threads.size()\<close>. A
  division by zero is \<open>None\<close>.
\<close>

definition batch_count :: "64 word \<Rightarrow> 64 word \<Rightarrow> 64 word \<Rightarrow> 64 word \<Rightarrow> 64 word option" where
  "batch_count outpoints_size batch_size in_flight threads_size =
     (if threads_size = 0 then None
      else let even_bucket = in_flight div threads_size
           in Some (max 1 (min (min outpoints_size batch_size) even_bucket)))"

text \<open>
  Lines 99 to 101: \<open>start_it = m_outpoints.end() - count\<close>, the elements from there to
  the end move to the batch and are erased from the queue. An iterator before
  \<open>begin()\<close> is \<open>None\<close>. The result is the queue that remains and the batch.
\<close>

definition pop_batch :: "64 word \<Rightarrow> 'a list \<Rightarrow> ('a list \<times> 'a list) option" where
  "pop_batch k q =
     (if unat k \<le> length q
      then Some (take (length q - unat k) q, drop (length q - unat k) q)
      else None)"

definition set_worker :: "nat \<Rightarrow> worker \<Rightarrow> InputFetcher \<Rightarrow> InputFetcher" where
  "set_worker i w f = f\<lparr> m_worker_threads := (m_worker_threads f)[i := w] \<rparr>"

text \<open>
  Lines 89 to 101, under the lock, for thread \<open>i\<close> with locals \<open>w\<close>: wait while the queue
  is empty and no stop is requested (the wait releases the lock, and the thread resumes
  here); return on a stop; otherwise claim a batch and release the lock.
\<close>

definition Loop_claim :: "nat \<Rightarrow> worker \<Rightarrow> InputFetcher \<Rightarrow> InputFetcher" where
  "Loop_claim i w f =
     (if m_outpoints f = [] \<and> \<not> m_request_stop f then set_worker i (w\<lparr> w_pc := AtWait \<rparr>) f
      else if m_request_stop f then set_worker i (w\<lparr> w_pc := Exited \<rparr>) f
      else
        case batch_count (of_nat (length (m_outpoints f))) (m_batch_size f)
               (m_in_flight_fetches_count f) (of_nat (length (m_worker_threads f))) of
          None \<Rightarrow> set_worker i (w\<lparr> w_pc := Faulted \<rparr>) f
        | Some k \<Rightarrow>
            (case pop_batch k (m_outpoints f) of
               None \<Rightarrow> set_worker i (w\<lparr> w_pc := Faulted \<rparr>) f
             | Some (rest, batch) \<Rightarrow>
                 set_worker i
                   (w\<lparr> w_pc := AtFetch, w_in_flight_fetches_count := k, w_outpoints := batch \<rparr>)
                   (f\<lparr> m_outpoints := rest \<rparr>)))"

text \<open>
  Lines 104 to 113, the lock released: \<open>pairs\<close> is cleared, then the batch is read from
  the store in order, and the loop breaks at the first outpoint the store does not hold.
\<close>

fun fetch_batch ::
  "CCoinsViewDB \<Rightarrow> COutPoint list \<Rightarrow> (COutPoint \<times> Coin) list \<Rightarrow> (COutPoint \<times> Coin) list" where
  "fetch_batch db [] acc = acc"
| "fetch_batch db (outpoint # rest) acc =
     (case GetCoin db outpoint of
        None \<Rightarrow> acc
      | Some coin \<Rightarrow> fetch_batch db rest (acc @ [(outpoint, coin)]))"

definition Loop_fetch :: "CCoinsViewDB \<Rightarrow> worker \<Rightarrow> worker" where
  "Loop_fetch db w =
     w\<lparr> w_pairs := fetch_batch db (w_outpoints w) [], w_outpoints := [], w_pc := AtLoopTop \<rparr>"

text \<open>
  One step of thread \<open>i\<close>: what it does from the point it is at until it next releases
  the mutex (or, from \<open>AtFetch\<close>, until it is back at the top of the loop).
\<close>

definition Loop_step :: "nat \<Rightarrow> InputFetcher \<Rightarrow> InputFetcher" where
  "Loop_step i f =
     (if i < length (m_worker_threads f) then
        let w = m_worker_threads f ! i in
        case w_pc w of
          AtLoopTop \<Rightarrow> Loop_claim i w (Loop_merge w f)
        | AtWait \<Rightarrow> Loop_claim i w f
        | AtFetch \<Rightarrow> set_worker i (Loop_fetch (m_db f) w) f
        | Exited \<Rightarrow> f
        | Faulted \<Rightarrow> f
      else f)"

subsection \<open>\<open>Add\<close> and \<open>FetchInputs\<close>\<close>

text \<open>Lines 118 to 133; the notifications that follow change no data.\<close>

definition Add :: "COutPoint list \<Rightarrow> InputFetcher \<Rightarrow> InputFetcher" where
  "Add outpoints f =
     (if outpoints = [] then f
      else f\<lparr> m_in_flight_fetches_count :=
                m_in_flight_fetches_count f + of_nat (length outpoints),
              m_outpoints := (if m_outpoints f = [] then outpoints
                              else m_outpoints f @ outpoints) \<rparr>)"

text \<open>
  Lines 170 to 197, the scan of the block. The cache is only read here (the inserts come
  after the last \<open>Add\<close>), so the scan fixes the arguments of the calls to \<open>Add\<close> in
  advance: \<open>scan_vin\<close> is the inner loop over one transaction's inputs, \<open>scan_vtx\<close> the
  outer loop with the final \<open>Add(std::move(buffer))\<close>. The state of the scan is the
  buffer and the arguments passed to \<open>Add\<close> so far.
\<close>

fun scan_vin ::
  "CCoinsViewCache \<Rightarrow> 64 word \<Rightarrow> Txid set \<Rightarrow> CTxIn list
     \<Rightarrow> COutPoint list \<times> COutPoint list list \<Rightarrow> COutPoint list \<times> COutPoint list list" where
  "scan_vin c batch_size txids [] (buffer, adds) = (buffer, adds)"
| "scan_vin c batch_size txids (inp # rest) (buffer, adds) =
     (let outpoint = prevout inp in
      if op_hash outpoint \<in> txids then scan_vin c batch_size txids rest (buffer, adds)
      else if HaveCoinInCache c outpoint then scan_vin c batch_size txids rest (buffer, adds)
      else
        let buffer' = buffer @ [outpoint] in
        if of_nat (length buffer') = batch_size
        then scan_vin c batch_size txids rest ([], adds @ [buffer'])
        else scan_vin c batch_size txids rest (buffer', adds))"

fun scan_vtx ::
  "CCoinsViewCache \<Rightarrow> 64 word \<Rightarrow> Txid set \<Rightarrow> CTransaction list
     \<Rightarrow> COutPoint list \<times> COutPoint list list \<Rightarrow> COutPoint list list" where
  "scan_vtx c batch_size txids [] (buffer, adds) = adds @ [buffer]"
| "scan_vtx c batch_size txids (tx # rest) (buffer, adds) =
     (if IsCoinBase tx then scan_vtx c batch_size txids rest (buffer, adds)
      else scan_vtx c batch_size (insert (GetHash tx) txids) rest
             (scan_vin c batch_size txids (vin tx) (buffer, adds)))"

text \<open>
  The thread that calls \<open>FetchInputs\<close>: it is making its calls to \<open>Add\<close>, or in the loop
  of lines 200 to 221 that moves results into the cache, or it has returned. Its locals
  are the calls to \<open>Add\<close> still to make and the cache.
\<close>

datatype main_pc = Adding | Draining | Returned

record main_thread =
  mt_pc :: main_pc
  mt_adds :: "COutPoint list list"
  mt_cache :: CCoinsViewCache

text \<open>Lines 218 to 220: every drained pair goes into the cache, not dirty.\<close>

fun emplace_all :: "(COutPoint \<times> Coin) list \<Rightarrow> CCoinsViewCache \<Rightarrow> CCoinsViewCache" where
  "emplace_all [] c = c"
| "emplace_all (pair # rest) c =
     emplace_all rest (EmplaceCoinInternalDANGER (fst pair) (snd pair) False c)"

text \<open>
  The state in which \<open>FetchInputs(cache, db, block)\<close> starts on the fetcher \<open>f\<close>, after
  \<open>m_db = &db\<close>.
\<close>

definition FetchInputs_begin ::
  "InputFetcher \<Rightarrow> CCoinsViewCache \<Rightarrow> CCoinsViewDB \<Rightarrow> CBlock \<Rightarrow> InputFetcher \<times> main_thread" where
  "FetchInputs_begin f c db block =
     (f\<lparr> m_db := db \<rparr>,
      \<lparr> mt_pc = Adding,
        mt_adds = scan_vtx c (m_batch_size f) {} (vtx block) ([], []),
        mt_cache = c \<rparr>)"

text \<open>
  One step of the calling thread. While adding: the next call to \<open>Add\<close>. While
  draining, under the lock: with no results and no stop, return if nothing is in flight
  and wait otherwise; return on a stop; otherwise take \<open>m_pairs\<close>, release the lock and
  insert the pairs.
\<close>

definition FetchInputs_step :: "InputFetcher \<times> main_thread \<Rightarrow> InputFetcher \<times> main_thread" where
  "FetchInputs_step s =
     (let f = fst s; m = snd s in
      case mt_pc m of
        Adding \<Rightarrow>
          (case mt_adds m of
             [] \<Rightarrow> (f, m\<lparr> mt_pc := Draining \<rparr>)
           | outpoints # rest \<Rightarrow> (Add outpoints f, m\<lparr> mt_adds := rest \<rparr>))
      | Draining \<Rightarrow>
          if m_pairs f = [] \<and> \<not> m_request_stop f then
            (if m_in_flight_fetches_count f = 0 then (f, m\<lparr> mt_pc := Returned \<rparr>) else (f, m))
          else if m_request_stop f then (f, m\<lparr> mt_pc := Returned \<rparr>)
          else (f\<lparr> m_pairs := [] \<rparr>, m\<lparr> mt_cache := emplace_all (m_pairs f) (mt_cache m) \<rparr>)
      | Returned \<Rightarrow> (f, m))"

text \<open>The destructor's first statement, under the lock.\<close>

definition request_stop :: "InputFetcher \<Rightarrow> InputFetcher" where
  "request_stop f = f\<lparr> m_request_stop := True \<rparr>"

text \<open>
  The mutex makes every critical section atomic, so a run of the object is an
  interleaving of steps: of the calling thread, of worker \<open>i\<close>, or of the destructor. A
  schedule is the order in which they happen. A thread scheduled while it waits checks
  its condition again, as after a notification or a spurious wake-up.
\<close>

datatype event = MainStep | WorkerStep nat | Destroy

fun step :: "event \<Rightarrow> InputFetcher \<times> main_thread \<Rightarrow> InputFetcher \<times> main_thread" where
  "step MainStep s = FetchInputs_step s"
| "step (WorkerStep i) s = (Loop_step i (fst s), snd s)"
| "step Destroy s = (request_stop (fst s), snd s)"

fun run :: "event list \<Rightarrow> InputFetcher \<times> main_thread \<Rightarrow> InputFetcher \<times> main_thread" where
  "run [] s = s"
| "run (e # es) s = run es (step e s)"

text \<open>\<open>FetchInputs\<close> under a schedule, and whether the call has returned by its end.\<close>

definition FetchInputs ::
  "event list \<Rightarrow> InputFetcher \<Rightarrow> CCoinsViewCache \<Rightarrow> CCoinsViewDB \<Rightarrow> CBlock
     \<Rightarrow> InputFetcher \<times> main_thread" where
  "FetchInputs sched f c db block = run sched (FetchInputs_begin f c db block)"

definition returned :: "InputFetcher \<times> main_thread \<Rightarrow> bool" where
  "returned s = (mt_pc (snd s) = Returned)"

subsection \<open>What the threads hold\<close>

text \<open>
  The batch a worker has claimed and not yet merged: at \<open>AtFetch\<close> and, once the batch is
  read, at \<open>AtLoopTop\<close>, its size is the local \<open>in_flight_fetches_count\<close> (zero before the
  first claim); after the merge, waiting or returned, the worker holds none. \<open>claimed\<close> is
  the batch still to be read, \<open>unmerged\<close> the results the next merge will publish.
\<close>

definition held :: "worker \<Rightarrow> nat" where
  "held w =
     (if w_pc w = AtFetch \<or> w_pc w = AtLoopTop then unat (w_in_flight_fetches_count w) else 0)"

definition claimed :: "worker \<Rightarrow> COutPoint list" where
  "claimed w = (if w_pc w = AtFetch then w_outpoints w else [])"

definition unmerged :: "worker \<Rightarrow> (COutPoint \<times> Coin) list" where
  "unmerged w =
     (if w_pc w = AtLoopTop \<and> w_in_flight_fetches_count w \<noteq> 0 then w_pairs w else [])"

text \<open>
  The in-flight counter, read as a number, is the length of the queue plus the sizes of
  the batches the workers hold. (A \<open>size_t\<close> is never negative.)
\<close>

definition in_flight_invariant :: "InputFetcher \<Rightarrow> bool" where
  "in_flight_invariant f =
     (0 \<le> uint (m_in_flight_fetches_count f) \<and>
      unat (m_in_flight_fetches_count f) =
        length (m_outpoints f) + sum_list (map held (m_worker_threads f)))"

text \<open>
  A fetcher between two calls of \<open>FetchInputs\<close>: nothing queued, nothing in flight, no
  results pending, and every worker either not yet run, waiting, or returned.
\<close>

definition idle_worker :: "worker \<Rightarrow> bool" where
  "idle_worker w =
     (w_pc w = AtWait \<or> w_pc w = Exited \<or>
      (w_pc w = AtLoopTop \<and> w_in_flight_fetches_count w = 0))"

definition idle :: "InputFetcher \<Rightarrow> bool" where
  "idle f =
     (m_outpoints f = [] \<and> m_pairs f = [] \<and> m_in_flight_fetches_count f = 0 \<and>
      list_all idle_worker (m_worker_threads f))"

definition block_inputs :: "CBlock \<Rightarrow> nat" where
  "block_inputs block = sum_list (map (\<lambda>tx. length (vin tx)) (vtx block))"

subsection \<open>The outpoints a block asks for\<close>

text \<open>
  The outpoints the scan hands to \<open>Add\<close>, in order, without the cut into batches:
  \<open>txids\<close> grows by the id of every transaction that is not a coinbase.
\<close>

fun scanned_outpoints :: "CCoinsViewCache \<Rightarrow> Txid set \<Rightarrow> CTransaction list \<Rightarrow> COutPoint list" where
  "scanned_outpoints c txids [] = []"
| "scanned_outpoints c txids (tx # rest) =
     (if IsCoinBase tx then scanned_outpoints c txids rest
      else filter (\<lambda>outpoint. op_hash outpoint \<notin> txids \<and> \<not> HaveCoinInCache c outpoint)
             (map prevout (vin tx))
           @ scanned_outpoints c (insert (GetHash tx) txids) rest)"

text \<open>
  The same in the words of the specification: the outpoints referenced by the inputs of
  the transactions that are not a coinbase, whose transaction id is not the id of an
  earlier transaction of the block (\<open>earlier\<close>, a coinbase included), and which are not
  in the cache.
\<close>

fun spec_outpoints :: "CCoinsViewCache \<Rightarrow> Txid set \<Rightarrow> CTransaction list \<Rightarrow> COutPoint list" where
  "spec_outpoints c earlier [] = []"
| "spec_outpoints c earlier (tx # rest) =
     (if IsCoinBase tx then []
      else filter (\<lambda>outpoint. op_hash outpoint \<notin> earlier \<and> \<not> HaveCoinInCache c outpoint)
             (map prevout (vin tx)))
     @ spec_outpoints c (insert (GetHash tx) earlier) rest"

text \<open>
  No input of a transaction that is not a coinbase refers to the id of a coinbase
  earlier in the block (\<open>cb\<close> collects those ids).
\<close>

fun no_coinbase_spend :: "Txid set \<Rightarrow> CTransaction list \<Rightarrow> bool" where
  "no_coinbase_spend cb [] = True"
| "no_coinbase_spend cb (tx # rest) =
     (if IsCoinBase tx then no_coinbase_spend (insert (GetHash tx) cb) rest
      else list_all (\<lambda>inp. op_hash (prevout inp) \<notin> cb) (vin tx) \<and> no_coinbase_spend cb rest)"

subsection \<open>Invariants of a run\<close>

text \<open>
  The counter invariant, with the room it needs: the outpoints queued, held and still to
  be added are fewer than \<open>2 ^ 64\<close>, so the counter never wraps.
\<close>

definition counter_inv :: "InputFetcher \<times> main_thread \<Rightarrow> bool" where
  "counter_inv s =
     (in_flight_invariant (fst s) \<and>
      length (m_outpoints (fst s)) + sum_list (map held (m_worker_threads (fst s)))
        + length (concat (mt_adds (snd s))) < 2 ^ 64)"

text \<open>The outpoints on their way: still to be added, queued, or claimed and unread.\<close>

definition in_transit :: "InputFetcher \<times> main_thread \<Rightarrow> COutPoint set" where
  "in_transit s =
     set (concat (mt_adds (snd s))) \<union> set (m_outpoints (fst s)) \<union>
     (\<Union>w \<in> set (m_worker_threads (fst s)). set (claimed w))"

text \<open>The results not yet in the cache: published, or with a worker until its merge.\<close>

definition results :: "InputFetcher \<times> main_thread \<Rightarrow> (COutPoint \<times> Coin) set" where
  "results s =
     set (m_pairs (fst s)) \<union> (\<Union>w \<in> set (m_worker_threads (fst s)). set (unmerged w))"

text \<open>
  Nothing but wanted outpoints (\<open>W\<close>) moves, every result is the store's coin for a
  wanted outpoint, and the cache is the initial cache \<open>c0\<close> but for wanted outpoints that
  hold the store's coin, not dirty.
\<close>

definition sound_inv ::
  "COutPoint set \<Rightarrow> CCoinsViewDB \<Rightarrow> CCoinsViewCache \<Rightarrow> InputFetcher \<times> main_thread \<Rightarrow> bool" where
  "sound_inv W db c0 s =
     (m_db (fst s) = db \<and>
      in_transit s \<subseteq> W \<and>
      (\<forall>p \<in> results s. fst p \<in> W \<and> db (fst p) = Some (snd p)) \<and>
      (\<forall>p. mt_cache (snd s) p = c0 p \<or>
           (p \<in> W \<and> (\<exists>coin. db p = Some coin \<and> mt_cache (snd s) p = Some (coin, False)))))"

text \<open>No wanted outpoint is lost: each is on its way, a pending result, or in the cache.\<close>

definition cover_inv ::
  "COutPoint set \<Rightarrow> CCoinsViewDB \<Rightarrow> InputFetcher \<times> main_thread \<Rightarrow> bool" where
  "cover_inv W db s =
     (\<forall>p \<in> W. p \<in> in_transit s \<or> p \<in> fst ` results s \<or>
             (\<exists>coin. db p = Some coin \<and> mt_cache (snd s) p = Some (coin, False)))"

text \<open>
  The control state: no worker has faulted, a worker reading a batch holds a non-empty
  one, the calling thread has made all its calls to \<open>Add\<close> once it drains, and it
  returns without a stop only when nothing is pending.
\<close>

definition control_inv :: "InputFetcher \<times> main_thread \<Rightarrow> bool" where
  "control_inv s =
     (length (m_worker_threads (fst s)) < 2 ^ 64 \<and>
      list_all (\<lambda>w. w_pc w \<noteq> Faulted \<and> (w_pc w = AtFetch \<longrightarrow> w_in_flight_fetches_count w \<noteq> 0))
        (m_worker_threads (fst s)) \<and>
      (mt_pc (snd s) \<noteq> Adding \<longrightarrow> mt_adds (snd s) = []) \<and>
      (mt_pc (snd s) = Returned \<and> \<not> m_request_stop (fst s) \<longrightarrow>
         m_pairs (fst s) = [] \<and> m_in_flight_fetches_count (fst s) = 0))"

subsection \<open>A sample block and sample runs\<close>

text \<open>
  A block of a coinbase and one transaction with the two inputs \<open>opA\<close> and \<open>opB\<close>, in
  this order; a store that holds both coins and one that lacks the coin of \<open>opA\<close>.
\<close>

definition opA :: COutPoint where
  "opA = \<lparr> op_hash = 10, op_n = 0 \<rparr>"

definition opB :: COutPoint where
  "opB = \<lparr> op_hash = 11, op_n = 0 \<rparr>"

definition coinA :: Coin where
  "coinA = \<lparr> out = \<lparr> nValue = 40, scriptPubKey = [] \<rparr>, fCoinBase = False, nHeight = 1 \<rparr>"

definition coinB :: Coin where
  "coinB = \<lparr> out = \<lparr> nValue = 50, scriptPubKey = [] \<rparr>, fCoinBase = False, nHeight = 1 \<rparr>"

definition store_full :: CCoinsViewDB where
  "store_full = (\<lambda>_. None)(opA := Some coinA, opB := Some coinB)"

definition store_without_A :: CCoinsViewDB where
  "store_without_A = (\<lambda>_. None)(opB := Some coinB)"

definition sample_block :: CBlock where
  "sample_block =
     \<lparr> vtx = [\<lparr> vin = [], tx_hash = 1, coinbase = True \<rparr>,
              \<lparr> vin = [\<lparr> prevout = opA, scriptSig = [], scriptWitness = [] \<rparr>,
                       \<lparr> prevout = opB, scriptSig = [], scriptWitness = [] \<rparr>],
                tx_hash = 2, coinbase = False \<rparr>] \<rparr>"

text \<open>
  Two schedules. In both the calling thread makes its two calls to \<open>Add\<close> (the full
  buffer, then the empty rest) and starts to drain, worker 0 then runs until it waits,
  and the calling thread drains and returns. With one thread worker 0 claims both
  outpoints at once; with more it claims them one by one, last first.
\<close>

definition sched_one_batch :: "event list" where
  "sched_one_batch =
     [MainStep, MainStep, MainStep, WorkerStep 0, WorkerStep 0, WorkerStep 0,
      MainStep, MainStep]"

definition sched_two_batches :: "event list" where
  "sched_two_batches =
     [MainStep, MainStep, MainStep, WorkerStep 0, WorkerStep 0, WorkerStep 0, WorkerStep 0,
      WorkerStep 0, MainStep, MainStep]"

text \<open>
  A fetcher whose one worker has claimed \<open>opB\<close> and \<open>opA\<close> and is about to read them from
  the store that lacks \<open>opA\<close>; and a fetcher of two workers with five outpoints queued.
\<close>

definition sample_fetching :: InputFetcher where
  "sample_fetching =
     (InputFetcher_init 2 1)
       \<lparr> m_in_flight_fetches_count := 2, m_db := store_without_A,
         m_worker_threads :=
           [\<lparr> w_pc = AtFetch, w_in_flight_fetches_count = 2, w_pairs = [],
              w_outpoints = [opB, opA] \<rparr>] \<rparr>"

definition sample_queued :: InputFetcher where
  "sample_queued =
     (InputFetcher_init 3 2)
       \<lparr> m_outpoints := [opA, opB, opA, opB, opA], m_in_flight_fetches_count := 5 \<rparr>"



section \<open>Properties of the validation outcome\<close>

lemma Error_mode: "mode (snd (Error m s)) = MODE_ERROR"
  by (simp add: Error_def Let_def)

lemma Error_nDoS: "nDoS (snd (Error m s)) = nDoS s"
  by (simp add: Error_def Let_def)

lemma DoS_in_error:
  "mode s = MODE_ERROR \<Longrightarrow>
     DoS l r ret c rr corr dbg s =
       (ret, s\<lparr> reason := r, chRejectCode := c, strRejectReason := rr,
                corruptionPossible := corr, strDebugMessage := dbg \<rparr>)"
  by (simp add: DoS_def Let_def)

lemma vs_apply_error:
  "mode s = MODE_ERROR \<Longrightarrow> mode (vs_apply x s) = MODE_ERROR \<and> nDoS (vs_apply x s) = nDoS s"
  by (cases x) (simp_all add: DoS_in_error Invalid_def Error_def Let_def SetCorruptionPossible_def)

lemma vs_run_error:
  "mode s = MODE_ERROR \<Longrightarrow> mode (vs_run xs s) = MODE_ERROR \<and> nDoS (vs_run xs s) = nDoS s"
proof (induction xs arbitrary: s)
  case Nil
  then show ?case by simp
next
  case (Cons x xs)
  from Cons.prems have "mode (vs_apply x s) = MODE_ERROR" and "nDoS (vs_apply x s) = nDoS s"
    by (simp_all add: vs_apply_error)
  with Cons.IH [of "vs_apply x s"] show ?case by simp
qed

text \<open>
  C2. Once \<open>Error(msg)\<close> has been called, whatever calls follow, a later \<open>Invalid(reason)\<close>
  leaves \<open>IsError()\<close> true and \<open>IsInvalid()\<close> false and the ban-score as it was (which is
  the score at the call of \<open>Error\<close>). And \<open>DoS\<close> called in Error mode returns the caller's
  \<open>ret\<close>, keeps mode and score, and records the reason, reject code, reject reason and
  debug message it was passed.
\<close>

theorem Error_then_Invalid_keeps_error:
  "(let t = vs_run ops (snd (Error msg s)); t' = snd (Invalid r ret c rr dbg t)
    in IsError t' \<and> \<not> IsInvalid t' \<and> GetDoS t' = GetDoS t \<and> GetDoS t = GetDoS s) \<and>
   (IsError s \<longrightarrow>
      (let (b, s') = DoS l r ret c rr corr dbg s
       in b = ret \<and> mode s' = mode s \<and> GetDoS s' = GetDoS s \<and>
          GetReason s' = r \<and> GetRejectCode s' = c \<and> GetRejectReason s' = rr \<and>
          GetDebugMessage s' = dbg))"
proof -
  have e: "mode (vs_run ops (snd (Error msg s))) = MODE_ERROR"
    and d: "nDoS (vs_run ops (snd (Error msg s))) = nDoS s"
    using vs_run_error [OF Error_mode, of ops msg s] by (simp_all add: Error_nDoS)
  show ?thesis
    by (simp add: Let_def Invalid_def DoS_in_error e d IsError_def IsInvalid_def GetDoS_def
        GetReason_def GetRejectCode_def GetRejectReason_def GetDebugMessage_def)
qed

theorem Error_then_Invalid_keeps_error_witness:
  "IsError (snd (Error ''x'' CValidationState_init)) \<and>
   DoS 10 CONSENSUS True 16 ''bad'' False ''dbg'' (snd (Error ''x'' CValidationState_init)) =
     (True, \<lparr> mode = MODE_ERROR, reason = CONSENSUS, nDoS = 0, strRejectReason = ''bad'',
              chRejectCode = 16, corruptionPossible = False, strDebugMessage = ''dbg'' \<rparr>)"
  using Error_then_Invalid_keeps_error
    [where s = "snd (Error ''x'' CValidationState_init)" and l = 10 and r = CONSENSUS
       and ret = True and c = 16 and rr = "''bad''" and corr = False and dbg = "''dbg''"]
  by (simp add: IsError_def Error_def DoS_def Let_def CValidationState_init_def)

text \<open>
  C8, as stated, fails: the flag is set, then a \<open>DoS\<close> call with \<open>corruptionIn = false\<close>
  clears it.
\<close>

theorem corruption_flag_reset_by_DoS:
  "CorruptionPossible (SetCorruptionPossible CValidationState_init) \<and>
   \<not> CorruptionPossible
       (snd (DoS 0 CONSENSUS False 0 [] False [] (SetCorruptionPossible CValidationState_init)))"
  by (simp add: CorruptionPossible_def SetCorruptionPossible_def DoS_def Let_def
      CValidationState_init_def)

text \<open>
  C8, amended. The flag follows the last call: after \<open>DoS\<close> it is the \<open>corruptionIn\<close>
  argument of that call, after \<open>Invalid\<close> it is false, \<open>Error\<close> leaves it as it was, and
  after \<open>SetCorruptionPossible\<close> it is true.
\<close>

theorem corruption_flag_follows_last_call:
  "CorruptionPossible (snd (DoS l r ret c rr corr dbg s)) = corr \<and>
   \<not> CorruptionPossible (snd (Invalid r ret c rr dbg s)) \<and>
   CorruptionPossible (snd (Error m s)) = CorruptionPossible s \<and>
   CorruptionPossible (SetCorruptionPossible s)"
  by (simp add: CorruptionPossible_def SetCorruptionPossible_def DoS_def Invalid_def Error_def
      Let_def)

section \<open>Properties of \<open>kernel_verify_script\<close>\<close>

lemma verify_all_value: "kernel_SCRIPT_FLAGS_VERIFY_ALL = 0x20E15"
  by (simp add: kernel_SCRIPT_FLAGS_VERIFY_ALL_def kernel_SCRIPT_FLAGS_VERIFY_P2SH_def
      kernel_SCRIPT_FLAGS_VERIFY_DERSIG_def kernel_SCRIPT_FLAGS_VERIFY_NULLDUMMY_def
      kernel_SCRIPT_FLAGS_VERIFY_CHECKLOCKTIMEVERIFY_def
      kernel_SCRIPT_FLAGS_VERIFY_CHECKSEQUENCEVERIFY_def
      kernel_SCRIPT_FLAGS_VERIFY_WITNESS_def kernel_SCRIPT_FLAGS_VERIFY_TAPROOT_def)

text \<open>
  A bitmask with a bit outside the header's list is rejected as invalid-flags before the
  combination is looked at, whatever the interpreter's constants are; a non-zero flag
  that shares no bit with the list is such a bitmask.
\<close>

lemma unrecognised_flag_rejected:
  assumes "flags AND NOT kernel_SCRIPT_FLAGS_VERIFY_ALL \<noteq> 0"
  shows "kernel_verify_script VerifyScript F script_pubkey amount tx spent len input_index
           flags status =
         \<lparr> vs_ret = False,
           vs_status = set_status kernel_SCRIPT_VERIFY_ERROR_INVALID_FLAGS status,
           vs_calls = [] \<rparr>"
  using assms by (simp add: kernel_verify_script_def verify_flags_def)

lemma flag_outside_the_header:
  fixes b :: "32 word"
  assumes "b \<noteq> 0" and "b AND kernel_SCRIPT_FLAGS_VERIFY_ALL = 0"
  shows "b AND NOT kernel_SCRIPT_FLAGS_VERIFY_ALL \<noteq> 0"
proof -
  have "b AND NOT kernel_SCRIPT_FLAGS_VERIFY_ALL =
        b AND NOT (b AND kernel_SCRIPT_FLAGS_VERIFY_ALL)"
    by (rule bit_eqI) (auto simp add: bit_and_iff bit_or_iff bit_not_iff)
  with assms show ?thesis by simp
qed

text \<open>
  C7, as stated, fails: the check for unrecognised flags comes first. The clean-stack
  flag alone (bit 8, not a flag of the kernel header) is an invalid combination, and the
  status is invalid-flags; so it is for the witness flag without P2SH next to the
  unrecognised bit 1.
\<close>

theorem unrecognised_flags_checked_first:
  "(let flags = SCRIPT_VERIFY_CLEANSTACK script_interpreter_h;
        r = kernel_verify_script (\<lambda>_. True) script_interpreter_h [] 0
              \<lparr> vin = [], tx_hash = 0, coinbase = False \<rparr> None 0 0 flags
              (Some kernel_SCRIPT_VERIFY_OK)
    in flags = 0x100 \<and> \<not> is_valid_flag_combination script_interpreter_h flags \<and>
       vs_status r = Some kernel_SCRIPT_VERIFY_ERROR_INVALID_FLAGS) \<and>
   (let flags = kernel_SCRIPT_FLAGS_VERIFY_WITNESS OR 2;
        r = kernel_verify_script (\<lambda>_. True) script_interpreter_h [] 0
              \<lparr> vin = [], tx_hash = 0, coinbase = False \<rparr> None 0 0 flags
              (Some kernel_SCRIPT_VERIFY_OK)
    in flags AND SCRIPT_VERIFY_WITNESS script_interpreter_h \<noteq> 0 \<and>
       flags AND SCRIPT_VERIFY_P2SH script_interpreter_h = 0 \<and>
       vs_status r = Some kernel_SCRIPT_VERIFY_ERROR_INVALID_FLAGS)"
  by (simp add: Let_def kernel_verify_script_def verify_flags_def verify_all_value
      is_valid_flag_combination_def script_interpreter_h_def set_status_def
      kernel_SCRIPT_FLAGS_VERIFY_WITNESS_def)

text \<open>
  What the combination check tests, when each of the interpreter's three flags is a
  single bit: the clean-stack bit asks for the P2SH bit and the witness bit, and the
  witness bit asks for the P2SH bit.
\<close>

lemma and_single_bit:
  fixes x :: "32 word"
  assumes "n < 32"
  shows "(x AND push_bit n 1 = 0) \<longleftrightarrow> \<not> bit x n"
proof
  assume z: "x AND push_bit n 1 = 0"
  show "\<not> bit x n"
  proof
    assume "bit x n"
    with assms have "bit (x AND push_bit n 1) n"
      by (simp add: bit_and_iff bit_push_bit_iff bit_exp_iff)
    with z show False by simp
  qed
next
  assume "\<not> bit x n"
  then show "x AND push_bit n 1 = 0"
    by (intro bit_eqI) (auto simp add: bit_and_iff bit_push_bit_iff bit_1_iff bit_exp_iff)
qed

lemma and_or_zero:
  fixes a :: "32 word"
  shows "(a AND (b OR c) = 0) \<longleftrightarrow> a AND b = 0 \<and> a AND c = 0"
  by (simp add: bit.conj_disj_distrib or_eq_0_iff)

lemma not_bit_not:
  fixes x :: "32 word"
  shows "n < 32 \<Longrightarrow> \<not> bit (NOT x) n \<longleftrightarrow> bit x n"
  by (simp add: bit_not_iff)

lemma invalid_combination_result:
  assumes "\<not> is_valid_flag_combination F flags"
  shows "kernel_verify_script VerifyScript F script_pubkey amount tx spent len input_index
           flags status =
         \<lparr> vs_ret = False,
           vs_status = set_status (if flags AND NOT kernel_SCRIPT_FLAGS_VERIFY_ALL = 0
                                   then kernel_SCRIPT_VERIFY_ERROR_INVALID_FLAGS_COMBINATION
                                   else kernel_SCRIPT_VERIFY_ERROR_INVALID_FLAGS) status,
           vs_calls = [] \<rparr>"
  using assms by (simp add: kernel_verify_script_def verify_flags_def)

lemma combination_bits:
  assumes "SCRIPT_VERIFY_P2SH F = push_bit p 1" and "SCRIPT_VERIFY_WITNESS F = push_bit w 1"
    and "SCRIPT_VERIFY_CLEANSTACK F = push_bit c 1" and "p < 32" and "w < 32" and "c < 32"
  shows "is_valid_flag_combination F flags \<longleftrightarrow>
           (bit flags c \<longrightarrow> bit flags p \<and> bit flags w) \<and> (bit flags w \<longrightarrow> bit flags p)"
proof -
  have cs: "(flags AND push_bit c 1 \<noteq> 0) = bit flags c"
    using and_single_bit [OF assms(6), of flags] by simp
  have ws: "(flags AND push_bit w 1 \<noteq> 0) = bit flags w"
    using and_single_bit [OF assms(5), of flags] by simp
  have np: "(NOT flags AND push_bit p 1 \<noteq> 0) = (\<not> bit flags p)"
    using and_single_bit [OF assms(4), of "NOT flags"] not_bit_not [OF assms(4), of flags]
    by simp
  have nw: "(NOT flags AND push_bit w 1 \<noteq> 0) = (\<not> bit flags w)"
    using and_single_bit [OF assms(5), of "NOT flags"] not_bit_not [OF assms(5), of flags]
    by simp
  have npw: "(NOT flags AND (push_bit p 1 OR push_bit w 1) \<noteq> 0) =
      (\<not> bit flags p \<or> \<not> bit flags w)"
    using and_or_zero [of "NOT flags" "push_bit p 1" "push_bit w 1"] np nw by blast
  show ?thesis
    unfolding is_valid_flag_combination_def assms(1,2,3) cs ws np npw by auto
qed

text \<open>
  C7, amended. Let each of the interpreter's P2SH, witness and clean-stack flags be a
  single bit. For every script, amount, transaction, spent-outputs argument and input
  index: if the bitmask contains the clean-stack flag without both the P2SH flag and the
  witness flag, or contains the witness flag without the P2SH flag, then
  \<open>kernel_verify_script\<close> returns false and never calls the interpreter, and the status
  slot (when non-null) is set to invalid-flag-combination if the bitmask has no bit
  outside the recognised kernel flags, and to invalid-flags otherwise.
\<close>

theorem invalid_flag_combination_rejected:
  assumes "SCRIPT_VERIFY_P2SH F = push_bit p 1" and "SCRIPT_VERIFY_WITNESS F = push_bit w 1"
    and "SCRIPT_VERIFY_CLEANSTACK F = push_bit c 1" and "p < 32" and "w < 32" and "c < 32"
    and "(bit flags c \<and> \<not> (bit flags p \<and> bit flags w)) \<or> (bit flags w \<and> \<not> bit flags p)"
  shows "kernel_verify_script VerifyScript F script_pubkey amount tx spent len input_index
           flags status =
         \<lparr> vs_ret = False,
           vs_status = set_status (if flags AND NOT kernel_SCRIPT_FLAGS_VERIFY_ALL = 0
                                   then kernel_SCRIPT_VERIFY_ERROR_INVALID_FLAGS_COMBINATION
                                   else kernel_SCRIPT_VERIFY_ERROR_INVALID_FLAGS) status,
           vs_calls = [] \<rparr>"
proof -
  from assms(7) have "\<not> is_valid_flag_combination F flags"
    unfolding combination_bits [OF assms(1-6)] by blast
  then show ?thesis by (rule invalid_combination_result)
qed

theorem invalid_flag_combination_rejected_witness:
  "SCRIPT_VERIFY_P2SH script_interpreter_h = push_bit 0 1 \<and>
   SCRIPT_VERIFY_WITNESS script_interpreter_h = push_bit 11 1 \<and>
   SCRIPT_VERIFY_CLEANSTACK script_interpreter_h = push_bit 8 1 \<and>
   bit (kernel_SCRIPT_FLAGS_VERIFY_WITNESS OR kernel_SCRIPT_FLAGS_VERIFY_DERSIG) (11 :: nat) \<and>
   \<not> bit (kernel_SCRIPT_FLAGS_VERIFY_WITNESS OR kernel_SCRIPT_FLAGS_VERIFY_DERSIG) (0 :: nat) \<and>
   kernel_verify_script (\<lambda>_. True) script_interpreter_h [] 0
       \<lparr> vin = [], tx_hash = 0, coinbase = False \<rparr> None 0 0
       (kernel_SCRIPT_FLAGS_VERIFY_WITNESS OR kernel_SCRIPT_FLAGS_VERIFY_DERSIG)
       (Some kernel_SCRIPT_VERIFY_OK) =
     \<lparr> vs_ret = False,
       vs_status = Some kernel_SCRIPT_VERIFY_ERROR_INVALID_FLAGS_COMBINATION,
       vs_calls = [] \<rparr>"
proof -
  let ?flags = "kernel_SCRIPT_FLAGS_VERIFY_WITNESS OR kernel_SCRIPT_FLAGS_VERIFY_DERSIG"
  have F: "SCRIPT_VERIFY_P2SH script_interpreter_h = push_bit 0 1"
    "SCRIPT_VERIFY_WITNESS script_interpreter_h = push_bit 11 1"
    "SCRIPT_VERIFY_CLEANSTACK script_interpreter_h = push_bit 8 1"
    by (simp_all add: script_interpreter_h_def)
  have b: "bit ?flags (11 :: nat)" "\<not> bit ?flags (0 :: nat)"
    by (simp_all add: kernel_SCRIPT_FLAGS_VERIFY_WITNESS_def
        kernel_SCRIPT_FLAGS_VERIFY_DERSIG_def bit_or_iff bit_exp_iff)
  have h: "(bit ?flags (8 :: nat) \<and> \<not> (bit ?flags (0 :: nat) \<and> bit ?flags (11 :: nat))) \<or>
           (bit ?flags (11 :: nat) \<and> \<not> bit ?flags (0 :: nat))"
    using b by simp
  have r: "?flags AND NOT kernel_SCRIPT_FLAGS_VERIFY_ALL = 0"
    by (simp add: verify_all_value kernel_SCRIPT_FLAGS_VERIFY_WITNESS_def
        kernel_SCRIPT_FLAGS_VERIFY_DERSIG_def)
  show ?thesis
    using invalid_flag_combination_rejected [OF F _ _ _ h, where VerifyScript = "\<lambda>_. True"
        and script_pubkey = "[]" and amount = 0
        and tx = "\<lparr> vin = [], tx_hash = 0, coinbase = False \<rparr>" and spent = None and len = 0
        and input_index = 0 and status = "Some kernel_SCRIPT_VERIFY_OK"] F b r
    by (simp add: set_status_def)
qed

text \<open>
  C9. When all five pre-checks pass, the status slot after the call is the slot before
  it, whatever it held and whatever the interpreter answers: the function makes one call
  to the interpreter, for the given input index and flags, and returns its verdict.
\<close>

theorem status_untouched_when_prechecks_pass:
  assumes "prechecks_pass F tx spent len input_index flags"
  shows "let r = kernel_verify_script VerifyScript F script_pubkey amount tx spent len
                   input_index flags status
         in vs_status r = status \<and>
            (\<exists>call. vs_calls r = [call] \<and> vs_ret r = VerifyScript call \<and>
                    ic_nIn call = input_index \<and> ic_flags call = flags)"
  using assms
  by (auto simp add: prechecks_pass_def kernel_verify_script_def Let_def)

theorem status_untouched_when_prechecks_pass_witness:
  "prechecks_pass script_interpreter_h
      \<lparr> vin = [\<lparr> prevout = \<lparr> op_hash = 7, op_n = 0 \<rparr>, scriptSig = [], scriptWitness = [] \<rparr>],
        tx_hash = 1, coinbase = False \<rparr>
      None 0 0 kernel_SCRIPT_FLAGS_VERIFY_P2SH \<and>
   vs_status (kernel_verify_script (\<lambda>_. False) script_interpreter_h [] 0
      \<lparr> vin = [\<lparr> prevout = \<lparr> op_hash = 7, op_n = 0 \<rparr>, scriptSig = [], scriptWitness = [] \<rparr>],
        tx_hash = 1, coinbase = False \<rparr>
      None 0 0 kernel_SCRIPT_FLAGS_VERIFY_P2SH (Some kernel_SCRIPT_VERIFY_OK)) =
     Some kernel_SCRIPT_VERIFY_OK"
proof -
  have h: "prechecks_pass script_interpreter_h
      \<lparr> vin = [\<lparr> prevout = \<lparr> op_hash = 7, op_n = 0 \<rparr>, scriptSig = [], scriptWitness = [] \<rparr>],
        tx_hash = 1, coinbase = False \<rparr>
      None 0 0 kernel_SCRIPT_FLAGS_VERIFY_P2SH"
    by (simp add: prechecks_pass_def verify_flags_def verify_all_value
        is_valid_flag_combination_def script_interpreter_h_def
        kernel_SCRIPT_FLAGS_VERIFY_P2SH_def kernel_SCRIPT_FLAGS_VERIFY_TAPROOT_def)
  show ?thesis
    using status_untouched_when_prechecks_pass [OF h, of "\<lambda>_. False" "[]" 0
        "Some kernel_SCRIPT_VERIFY_OK"] h
    by (simp add: Let_def)
qed

section \<open>Properties of the input fetcher\<close>


subsection \<open>Reading and claiming a batch\<close>

lemma fetch_batch_acc:
  "fetch_batch db os acc = acc @ map (\<lambda>p. (p, the (db p))) (takeWhile (\<lambda>p. db p \<noteq> None) os)"
  by (induction os arbitrary: acc) (auto simp: GetCoin_def split: option.splits)

lemma unat_of_nat_le: "unat (of_nat n :: 64 word) \<le> n"
  by (simp add: unat_of_nat)

lemma unat_max: "unat (max a b) = max (unat a) (unat (b :: 64 word))"
  unfolding max_def word_le_nat_alt by simp

lemma unat_min: "unat (min a b) = min (unat a) (unat (b :: 64 word))"
  unfolding min_def word_le_nat_alt by simp

lemma batch_count_Some:
  "ts \<noteq> 0 \<Longrightarrow> batch_count sz bs c ts = Some (max 1 (min (min sz bs) (c div ts)))"
  by (simp add: batch_count_def)

lemma unat_batch_count:
  "unat (max 1 (min (min sz bs) (c div ts)) :: 64 word) =
     max 1 (min (min (unat sz) (unat bs)) (unat c div unat ts))"
  by (simp only: unat_max unat_min unat_div unat_1)

lemma batch_count_bounds:
  assumes "batch_count (of_nat n) bs c ts = Some k" and "0 < n"
  shows "1 \<le> unat k \<and> unat k \<le> n"
proof -
  from assms(1) have "ts \<noteq> 0" by (simp add: batch_count_def split: if_splits)
  with assms(1) have k: "k = max 1 (min (min (of_nat n) bs) (c div ts))"
    by (simp add: batch_count_Some)
  have "unat k = max 1 (min (min (unat (of_nat n :: 64 word)) (unat bs)) (unat c div unat ts))"
    unfolding k by (rule unat_batch_count)
  with unat_of_nat_le [of n] assms(2) show ?thesis by (simp add: max_def min_def)
qed

lemma batch_count_nat:
  assumes "ts \<noteq> 0" and "n < 2 ^ 64"
  shows "\<exists>k. batch_count (of_nat n) bs c ts = Some k \<and>
             unat k = max 1 (min (min n (unat bs)) (unat c div unat ts))"
proof -
  have n: "unat (of_nat n :: 64 word) = n" using assms(2) by (simp add: unat_of_nat)
  have "batch_count (of_nat n) bs c ts = Some (max 1 (min (min (of_nat n) bs) (c div ts)))"
    using assms(1) by (rule batch_count_Some)
  moreover have "unat (max 1 (min (min (of_nat n) bs) (c div ts)) :: 64 word) =
      max 1 (min (min n (unat bs)) (unat c div unat ts))"
    using unat_batch_count [of "of_nat n" bs c ts] by (simp only: n)
  ultimately show ?thesis by blast
qed

lemma pop_batch_Some:
  "unat k \<le> length q \<Longrightarrow>
     pop_batch k q = Some (take (length q - unat k) q, drop (length q - unat k) q)"
  by (simp add: pop_batch_def)


subsection \<open>One step of a worker\<close>

lemma held_update_sum:
  "i < length ws \<Longrightarrow>
     sum_list (map held (ws[i := w'])) + held (ws ! i) = sum_list (map held ws) + held w'"
  by (induction ws arbitrary: i) (auto split: nat.splits)

lemma set_update_back:
  "i < length ws \<Longrightarrow> x \<in> set ws \<Longrightarrow> x = ws ! i \<or> x \<in> set (ws[i := w'])"
  by (metis in_set_conv_nth length_list_update nth_list_update_neq)

lemma set_update_fwd: "x \<in> set (ws[i := w']) \<Longrightarrow> x = w' \<or> x \<in> set ws"
  using set_update_subset_insert [of ws i w'] by auto

lemma merged_view:
  "w_pc w = AtLoopTop \<Longrightarrow>
     Loop_merge w f =
       f\<lparr> m_pairs := m_pairs f @ unmerged w,
          m_in_flight_fetches_count := m_in_flight_fetches_count f - of_nat (held w) \<rparr>"
  by (simp add: Loop_merge_def unmerged_def held_def)

lemma waiting_view:
  "w_pc w = AtWait \<Longrightarrow>
     f = f\<lparr> m_pairs := m_pairs f @ unmerged w,
            m_in_flight_fetches_count := m_in_flight_fetches_count f - of_nat (held w) \<rparr>"
  by (simp add: unmerged_def held_def)

lemma word_nonzero: "1 \<le> unat (k :: 64 word) \<Longrightarrow> k \<noteq> 0"
  by auto

lemma parked_worker_facts:
  assumes "pc \<noteq> AtFetch" and "pc \<noteq> AtLoopTop"
  shows "q @ claimed (w\<lparr> w_pc := pc \<rparr>) = q"
    and "held (w\<lparr> w_pc := pc \<rparr>) = length (claimed (w\<lparr> w_pc := pc \<rparr>))"
    and "unmerged (w\<lparr> w_pc := pc \<rparr>) = []"
    and "w_pc (w\<lparr> w_pc := pc \<rparr>) = pc"
  using assms by (simp_all add: claimed_def held_def unmerged_def)

lemma claiming_worker_facts:
  fixes k :: "64 word" and w :: worker and q :: "COutPoint list"
  assumes "1 \<le> unat k" and "unat k \<le> length q"
  defines "w' \<equiv> w\<lparr> w_pc := AtFetch, w_in_flight_fetches_count := k,
                    w_outpoints := drop (length q - unat k) q \<rparr>"
  shows "take (length q - unat k) q @ claimed w' = q"
    and "held w' = length (claimed w')"
    and "unmerged w' = []"
    and "w_pc w' = AtFetch"
    and "w_in_flight_fetches_count w' \<noteq> 0"
  using assms(2) word_nonzero [OF assms(1)]
  by (simp_all add: w'_def claimed_def held_def unmerged_def)

lemma Loop_claim_park:
  "m_outpoints f = [] \<Longrightarrow> \<not> m_request_stop f \<Longrightarrow>
     Loop_claim i w f =
       f\<lparr> m_outpoints := m_outpoints f,
          m_worker_threads := (m_worker_threads f)[i := w\<lparr> w_pc := AtWait \<rparr>] \<rparr>"
  by (simp add: Loop_claim_def set_worker_def)

lemma Loop_claim_exit:
  "m_request_stop f \<Longrightarrow>
     Loop_claim i w f =
       f\<lparr> m_outpoints := m_outpoints f,
          m_worker_threads := (m_worker_threads f)[i := w\<lparr> w_pc := Exited \<rparr>] \<rparr>"
  by (simp add: Loop_claim_def set_worker_def)

lemma Loop_claim_fault:
  "m_outpoints f \<noteq> [] \<Longrightarrow> \<not> m_request_stop f \<Longrightarrow>
   of_nat (length (m_worker_threads f)) = (0 :: 64 word) \<Longrightarrow>
     Loop_claim i w f =
       f\<lparr> m_outpoints := m_outpoints f,
          m_worker_threads := (m_worker_threads f)[i := w\<lparr> w_pc := Faulted \<rparr>] \<rparr>"
  by (simp add: Loop_claim_def set_worker_def batch_count_def)

lemma Loop_claim_take:
  assumes "m_outpoints f \<noteq> []" and "\<not> m_request_stop f"
    and "batch_count (of_nat (length (m_outpoints f))) (m_batch_size f)
           (m_in_flight_fetches_count f) (of_nat (length (m_worker_threads f))) = Some k"
    and "pop_batch k (m_outpoints f) = Some (rest, batch)"
  shows "Loop_claim i w f =
       f\<lparr> m_outpoints := rest,
          m_worker_threads := (m_worker_threads f)
            [i := w\<lparr> w_pc := AtFetch, w_in_flight_fetches_count := k, w_outpoints := batch \<rparr>] \<rparr>"
  using assms(1,2) unfolding Loop_claim_def assms(3) by (simp add: assms(4) set_worker_def)

lemma Loop_claim_effect:
  "\<exists>Q' w'. Loop_claim i w f =
              f\<lparr> m_outpoints := Q', m_worker_threads := (m_worker_threads f)[i := w'] \<rparr> \<and>
           Q' @ claimed w' = m_outpoints f \<and>
           held w' = length (claimed w') \<and>
           unmerged w' = [] \<and>
           w_pc w' \<noteq> AtLoopTop \<and>
           (w_pc w' = Faulted \<longrightarrow> of_nat (length (m_worker_threads f)) = (0 :: 64 word)) \<and>
           (w_pc w' = AtFetch \<longrightarrow> w_in_flight_fetches_count w' \<noteq> 0)"
proof -
  let ?q = "m_outpoints f"
  let ?ts = "of_nat (length (m_worker_threads f)) :: 64 word"
  consider (wait) "?q = []" "\<not> m_request_stop f"
    | (stop) "m_request_stop f"
    | (fault) "?q \<noteq> []" "\<not> m_request_stop f" "?ts = 0"
    | (claim) "?q \<noteq> []" "\<not> m_request_stop f" "?ts \<noteq> 0"
    by blast
  then show ?thesis
  proof cases
    case wait
    show ?thesis
      using Loop_claim_park [OF wait, where i = i and w = w]
        parked_worker_facts [where pc = AtWait and w = w]
      by (intro exI [of _ ?q] exI [of _ "w\<lparr> w_pc := AtWait \<rparr>"]) simp
  next
    case stop
    show ?thesis
      using Loop_claim_exit [OF stop, where i = i and w = w]
        parked_worker_facts [where pc = Exited and w = w]
      by (intro exI [of _ ?q] exI [of _ "w\<lparr> w_pc := Exited \<rparr>"]) simp
  next
    case fault
    show ?thesis
      using Loop_claim_fault [OF fault, where i = i and w = w]
        parked_worker_facts [where pc = Faulted and w = w] fault(3)
      by (intro exI [of _ ?q] exI [of _ "w\<lparr> w_pc := Faulted \<rparr>"]) simp
  next
    case claim
    obtain k where bc: "batch_count (of_nat (length ?q)) (m_batch_size f)
        (m_in_flight_fetches_count f) ?ts = Some k"
      using batch_count_Some [OF claim(3)] by blast
    from batch_count_bounds [OF bc] claim(1) have k: "1 \<le> unat k" "unat k \<le> length ?q"
      by simp_all
    let ?rest = "take (length ?q - unat k) ?q"
    let ?batch = "drop (length ?q - unat k) ?q"
    let ?w = "w\<lparr> w_pc := AtFetch, w_in_flight_fetches_count := k, w_outpoints := ?batch \<rparr>"
    have pb: "pop_batch k ?q = Some (?rest, ?batch)"
      using k(2) by (rule pop_batch_Some)
    show ?thesis
      using Loop_claim_take [OF claim(1,2) bc pb, where i = i and w = w]
        claiming_worker_facts [OF k, where w = w]
      by (intro exI [of _ ?rest] exI [of _ ?w]) simp
  qed
qed

lemma UN_update:
  assumes "i < length ws"
  shows "(\<Union>w \<in> set (ws[i := w']). F w) \<union> F (ws ! i) = (\<Union>w \<in> set ws. F w) \<union> F w'"
proof (intro equalityI subsetI)
  fix x assume "x \<in> (\<Union>w \<in> set (ws[i := w']). F w) \<union> F (ws ! i)"
  then show "x \<in> (\<Union>w \<in> set ws. F w) \<union> F w'"
    using set_update_fwd [of _ ws i w'] nth_mem [OF assms] by blast
next
  fix x assume "x \<in> (\<Union>w \<in> set ws. F w) \<union> F w'"
  then show "x \<in> (\<Union>w \<in> set (ws[i := w']). F w) \<union> F (ws ! i)"
    using set_update_back [OF assms, of _ w'] set_update_memI [OF assms, of w'] by blast
qed

lemma Loop_step_locked:
  assumes "i < length (m_worker_threads f)" and "w = m_worker_threads f ! i"
    and "w_pc w = AtLoopTop \<or> w_pc w = AtWait"
  shows "\<exists>Q' w'. Loop_step i f =
              f\<lparr> m_outpoints := Q',
                 m_pairs := m_pairs f @ unmerged w,
                 m_in_flight_fetches_count := m_in_flight_fetches_count f - of_nat (held w),
                 m_worker_threads := (m_worker_threads f)[i := w'] \<rparr> \<and>
           Q' @ claimed w' = m_outpoints f \<and>
           held w' = length (claimed w') \<and>
           unmerged w' = [] \<and>
           w_pc w' \<noteq> AtLoopTop \<and>
           (w_pc w' = Faulted \<longrightarrow> of_nat (length (m_worker_threads f)) = (0 :: 64 word)) \<and>
           (w_pc w' = AtFetch \<longrightarrow> w_in_flight_fetches_count w' \<noteq> 0)"
proof -
  let ?g = "f\<lparr> m_pairs := m_pairs f @ unmerged w,
               m_in_flight_fetches_count := m_in_flight_fetches_count f - of_nat (held w) \<rparr>"
  have "Loop_step i f = Loop_claim i w ?g"
  proof (cases "w_pc w = AtLoopTop")
    case True
    then show ?thesis
      using assms(1,2) merged_view [OF True, of f] by (simp add: Loop_step_def Let_def)
  next
    case False
    with assms(3) have wt: "w_pc w = AtWait" by simp
    then show ?thesis
      using assms(1,2) waiting_view [OF wt, of f] by (simp add: Loop_step_def Let_def)
  qed
  moreover from Loop_claim_effect [of i w ?g]
  obtain Q' w' where "Loop_claim i w ?g =
        ?g\<lparr> m_outpoints := Q', m_worker_threads := (m_worker_threads ?g)[i := w'] \<rparr>"
    and rest: "Q' @ claimed w' = m_outpoints ?g" "held w' = length (claimed w')"
      "unmerged w' = []" "w_pc w' \<noteq> AtLoopTop"
      "w_pc w' = Faulted \<longrightarrow> of_nat (length (m_worker_threads ?g)) = (0 :: 64 word)"
      "w_pc w' = AtFetch \<longrightarrow> w_in_flight_fetches_count w' \<noteq> 0"
    by blast
  ultimately have "Loop_step i f =
      f\<lparr> m_outpoints := Q',
         m_pairs := m_pairs f @ unmerged w,
         m_in_flight_fetches_count := m_in_flight_fetches_count f - of_nat (held w),
         m_worker_threads := (m_worker_threads f)[i := w'] \<rparr>"
    by simp
  with rest show ?thesis by (intro exI [of _ Q'] exI [of _ w']) simp
qed

lemma Loop_step_fetch:
  assumes "i < length (m_worker_threads f)" and "w = m_worker_threads f ! i"
    and "w_pc w = AtFetch"
  shows "Loop_step i f =
           f\<lparr> m_worker_threads := (m_worker_threads f)[i := Loop_fetch (m_db f) w] \<rparr>"
  using assms by (simp add: Loop_step_def Let_def set_worker_def)

lemma Loop_step_done:
  assumes "i < length (m_worker_threads f) \<longrightarrow>
     w_pc (m_worker_threads f ! i) = Exited \<or> w_pc (m_worker_threads f ! i) = Faulted"
  shows "Loop_step i f = f"
  using assms by (auto simp add: Loop_step_def Let_def)

lemma Loop_fetch_facts:
  assumes "w_pc w = AtFetch"
  shows "held (Loop_fetch db w) = held w"
    and "claimed (Loop_fetch db w) = []"
    and "w_pc (Loop_fetch db w) = AtLoopTop"
    and "unmerged w = []"
    and "w_in_flight_fetches_count w \<noteq> 0 \<Longrightarrow>
           unmerged (Loop_fetch db w) = fetch_batch db (claimed w) []"
    and "set (unmerged (Loop_fetch db w)) \<subseteq> set (fetch_batch db (claimed w) [])"
  using assms by (auto simp add: Loop_fetch_def held_def claimed_def unmerged_def)

lemma fetch_batch_sound:
  "p \<in> set (fetch_batch db os []) \<Longrightarrow> fst p \<in> set os \<and> db (fst p) = Some (snd p)"
  by (auto simp add: fetch_batch_acc dest!: set_takeWhileD)

lemma fetch_batch_complete:
  assumes "set os \<subseteq> dom db"
  shows "fst ` set (fetch_batch db os []) = set os"
proof -
  have "takeWhile (\<lambda>p. db p \<noteq> None) os = os"
    using assms by (intro takeWhile_eq_all_conv [THEN iffD2]) auto
  then have "fetch_batch db os [] = map (\<lambda>p. (p, the (db p))) os"
    by (simp only: fetch_batch_acc append_Nil)
  then show ?thesis by (simp add: image_image)
qed


subsection \<open>The invariants under a step of a worker\<close>

lemma unat_sub_of_nat:
  fixes C :: "64 word"
  assumes "h \<le> unat C"
  shows "unat (C - of_nat h) = unat C - h"
proof -
  have "unat C < 2 ^ 64" using unsigned_less [of C] by simp
  with assms have "h < 2 ^ 64" by simp
  then have h: "unat (of_nat h :: 64 word) = h" by (simp add: unat_of_nat)
  with assms have "(of_nat h :: 64 word) \<le> C" by (simp add: word_le_nat_alt)
  then show ?thesis by (simp add: unat_sub h)
qed

lemma unat_add_of_nat:
  fixes C :: "64 word"
  assumes "unat C + n < 2 ^ 64"
  shows "unat (C + of_nat n) = unat C + n"
proof -
  from assms have "n < 2 ^ 64" by simp
  then have n: "unat (of_nat n :: 64 word) = n" by (simp add: unat_of_nat)
  show ?thesis using assms by (simp add: unat_add_lem [THEN iffD1] n)
qed

lemma held_le_sum: "i < length ws \<Longrightarrow> held (ws ! i) \<le> sum_list (map held ws)"
  using member_le_sum_list [of "held (ws ! i)" "map held ws"] by simp

lemma of_nat_nonzero:
  assumes "0 < n" and "n < 2 ^ 64"
  shows "(of_nat n :: 64 word) \<noteq> 0"
proof
  assume "(of_nat n :: 64 word) = 0"
  then have "unat (of_nat n :: 64 word) = 0" by simp
  moreover have "unat (of_nat n :: 64 word) = n" using assms(2) by (simp add: unat_of_nat)
  ultimately show False using assms(1) by simp
qed

lemma worker_step_cases:
  obtains (none) "Loop_step i f = f"
  | (fetch) "i < length (m_worker_threads f)" "w_pc (m_worker_threads f ! i) = AtFetch"
  | (locked) "i < length (m_worker_threads f)"
      "w_pc (m_worker_threads f ! i) = AtLoopTop \<or> w_pc (m_worker_threads f ! i) = AtWait"
proof (cases "i < length (m_worker_threads f)")
  case True
  then show ?thesis
    using that Loop_step_done [of i f] by (cases "w_pc (m_worker_threads f ! i)") auto
next
  case False
  then show ?thesis using that(1) Loop_step_done [of i f] by simp
qed

lemma in_flight_invariant_iff:
  "in_flight_invariant f \<longleftrightarrow>
     unat (m_in_flight_fetches_count f) =
       length (m_outpoints f) + sum_list (map held (m_worker_threads f))"
  by (simp add: in_flight_invariant_def)

lemma counter_inv_worker:
  assumes "counter_inv (f, m)"
  shows "counter_inv (Loop_step i f, m)"
proof (cases rule: worker_step_cases [of i f])
  case none
  with assms show ?thesis by simp
next
  case fetch
  let ?ws = "m_worker_threads f"
  let ?w' = "Loop_fetch (m_db f) (?ws ! i)"
  have eq: "Loop_step i f = f\<lparr> m_worker_threads := ?ws[i := ?w'] \<rparr>"
    using fetch by (intro Loop_step_fetch) simp_all
  have "held ?w' = held (?ws ! i)" using fetch(2) by (rule Loop_fetch_facts)
  with held_update_sum [OF fetch(1), of ?w']
  have "sum_list (map held (?ws[i := ?w'])) = sum_list (map held ?ws)" by simp
  with assms show ?thesis by (simp add: eq counter_inv_def in_flight_invariant_iff)
next
  case locked
  let ?ws = "m_worker_threads f"
  let ?h = "held (?ws ! i)"
  from Loop_step_locked [OF locked(1) refl locked(2)]
  obtain Q' w' where eq: "Loop_step i f =
        f\<lparr> m_outpoints := Q', m_pairs := m_pairs f @ unmerged (?ws ! i),
           m_in_flight_fetches_count := m_in_flight_fetches_count f - of_nat ?h,
           m_worker_threads := ?ws[i := w'] \<rparr>"
    and q: "Q' @ claimed w' = m_outpoints f" and h': "held w' = length (claimed w')"
    by blast
  from assms have c: "unat (m_in_flight_fetches_count f) =
      length (m_outpoints f) + sum_list (map held ?ws)"
    and b: "length (m_outpoints f) + sum_list (map held ?ws) + length (concat (mt_adds m)) < 2 ^ 64"
    by (simp_all add: counter_inv_def in_flight_invariant_iff)
  have le: "?h \<le> sum_list (map held ?ws)" using locked(1) by (rule held_le_sum)
  have s: "sum_list (map held (?ws[i := w'])) + ?h = sum_list (map held ?ws) + held w'"
    using locked(1) by (rule held_update_sum)
  have l: "length (m_outpoints f) = length Q' + held w'"
    using arg_cong [OF q, of length] h' by simp
  have "unat (m_in_flight_fetches_count f - of_nat ?h) = unat (m_in_flight_fetches_count f) - ?h"
    using le c by (intro unat_sub_of_nat) simp
  with c le s l b show ?thesis
    by (simp add: eq counter_inv_def in_flight_invariant_iff)
qed

lemma counter_inv_held_zero:
  assumes "counter_inv (f, m)" and "m_in_flight_fetches_count f = 0"
  shows "m_outpoints f = []" and "\<forall>w \<in> set (m_worker_threads f). held w = 0"
  using assms by (simp_all add: counter_inv_def in_flight_invariant_iff)

lemma held_zero_unmerged: "held w = 0 \<Longrightarrow> unmerged w = []"
  by (auto simp add: held_def unmerged_def unat_eq_0 split: if_splits)

lemma list_all_update:
  "list_all P ws \<Longrightarrow> P w' \<Longrightarrow> list_all P (ws[i := w'])"
  using set_update_fwd [of _ ws i w'] by (auto simp add: list_all_iff)

lemma control_inv_worker:
  assumes "control_inv (f, m)" and "counter_inv (f, m)"
  shows "control_inv (Loop_step i f, m)"
proof (cases rule: worker_step_cases [of i f])
  case none
  with assms show ?thesis by simp
next
  case fetch
  let ?ws = "m_worker_threads f"
  let ?w' = "Loop_fetch (m_db f) (?ws ! i)"
  have eq: "Loop_step i f = f\<lparr> m_worker_threads := ?ws[i := ?w'] \<rparr>"
    using fetch by (intro Loop_step_fetch) simp_all
  have "w_pc ?w' = AtLoopTop" using fetch(2) by (rule Loop_fetch_facts)
  then have "w_pc ?w' \<noteq> Faulted \<and> (w_pc ?w' = AtFetch \<longrightarrow> w_in_flight_fetches_count ?w' \<noteq> 0)"
    by simp
  with assms(1) show ?thesis
    by (simp add: eq control_inv_def list_all_update)
next
  case locked
  let ?ws = "m_worker_threads f"
  from Loop_step_locked [OF locked(1) refl locked(2)]
  obtain Q' w' where eq: "Loop_step i f =
        f\<lparr> m_outpoints := Q', m_pairs := m_pairs f @ unmerged (?ws ! i),
           m_in_flight_fetches_count := m_in_flight_fetches_count f - of_nat (held (?ws ! i)),
           m_worker_threads := ?ws[i := w'] \<rparr>"
    and fl: "w_pc w' = Faulted \<longrightarrow> of_nat (length ?ws) = (0 :: 64 word)"
    and nz: "w_pc w' = AtFetch \<longrightarrow> w_in_flight_fetches_count w' \<noteq> 0"
    by blast
  from assms(1) have len: "length ?ws < 2 ^ 64" by (simp add: control_inv_def)
  with locked(1) have "of_nat (length ?ws) \<noteq> (0 :: 64 word)"
    by (intro of_nat_nonzero) auto
  with fl nz have w': "w_pc w' \<noteq> Faulted \<and> (w_pc w' = AtFetch \<longrightarrow> w_in_flight_fetches_count w' \<noteq> 0)"
    by simp
  have ret: "m_pairs f @ unmerged (?ws ! i) = [] \<and>
             m_in_flight_fetches_count f - of_nat (held (?ws ! i)) = 0"
    if "m_pairs f = []" "m_in_flight_fetches_count f = 0"
  proof -
    have "held (?ws ! i) = 0"
      using counter_inv_held_zero(2) [OF assms(2) that(2)] nth_mem [OF locked(1)] by blast
    with that held_zero_unmerged [of "?ws ! i"] show ?thesis by simp
  qed
  from assms(1) w' ret show ?thesis
    by (simp add: eq control_inv_def list_all_update)
qed

lemma views_locked:
  assumes "i < length (m_worker_threads f)"
    and "claimed (m_worker_threads f ! i) = []"
    and "Q' @ claimed w' = m_outpoints f" and "unmerged w' = []"
    and "f' = f\<lparr> m_outpoints := Q',
                 m_pairs := m_pairs f @ unmerged (m_worker_threads f ! i),
                 m_in_flight_fetches_count := C',
                 m_worker_threads := (m_worker_threads f)[i := w'] \<rparr>"
  shows "in_transit (f', m) = in_transit (f, m)" and "results (f', m) = results (f, m)"
proof -
  let ?ws = "m_worker_threads f"
  have c: "(\<Union>w \<in> set (?ws[i := w']). set (claimed w)) =
           (\<Union>w \<in> set ?ws. set (claimed w)) \<union> set (claimed w')"
    using UN_update [OF assms(1), where w' = w' and F = "\<lambda>w. set (claimed w)"] assms(2) by simp
  have q: "set (m_outpoints f) = set Q' \<union> set (claimed w')"
    using arg_cong [OF assms(3), of set] by simp
  have sel: "m_outpoints f' = Q'" "m_pairs f' = m_pairs f @ unmerged (?ws ! i)"
    "m_worker_threads f' = ?ws[i := w']"
    by (simp_all add: assms(5))
  show "in_transit (f', m) = in_transit (f, m)"
    by (simp add: in_transit_def sel c q Un_ac)
  have u: "(\<Union>w \<in> set (?ws[i := w']). set (unmerged w)) \<union> set (unmerged (?ws ! i)) =
           (\<Union>w \<in> set ?ws. set (unmerged w))"
    using UN_update [OF assms(1), where w' = w' and F = "\<lambda>w. set (unmerged w)"] assms(4) by simp
  show "results (f', m) = results (f, m)"
    by (simp add: results_def sel u [symmetric] Un_ac)
qed

lemma views_fetch:
  assumes "i < length (m_worker_threads f)"
    and "unmerged (m_worker_threads f ! i) = []" and "claimed w' = []"
    and "f' = f\<lparr> m_worker_threads := (m_worker_threads f)[i := w'] \<rparr>"
  shows "in_transit (f', m) \<union> set (claimed (m_worker_threads f ! i)) = in_transit (f, m)"
    and "results (f', m) = results (f, m) \<union> set (unmerged w')"
proof -
  let ?ws = "m_worker_threads f"
  have c: "(\<Union>w \<in> set (?ws[i := w']). set (claimed w)) \<union> set (claimed (?ws ! i)) =
           (\<Union>w \<in> set ?ws. set (claimed w))"
    using UN_update [OF assms(1), where w' = w' and F = "\<lambda>w. set (claimed w)"] assms(3) by simp
  have sel: "m_outpoints f' = m_outpoints f" "m_pairs f' = m_pairs f"
    "m_worker_threads f' = ?ws[i := w']"
    by (simp_all add: assms(4))
  show "in_transit (f', m) \<union> set (claimed (?ws ! i)) = in_transit (f, m)"
    using c by (simp add: in_transit_def sel Un_assoc)
  have u: "(\<Union>w \<in> set (?ws[i := w']). set (unmerged w)) =
           (\<Union>w \<in> set ?ws. set (unmerged w)) \<union> set (unmerged w')"
    using UN_update [OF assms(1), where w' = w' and F = "\<lambda>w. set (unmerged w)"] assms(2) by simp
  show "results (f', m) = results (f, m) \<union> set (unmerged w')"
    by (simp add: results_def sel u Un_assoc)
qed

lemma locked_claimed: "w_pc w = AtLoopTop \<or> w_pc w = AtWait \<Longrightarrow> claimed w = []"
  by (auto simp add: claimed_def)

lemma sound_inv_cong:
  assumes "sound_inv W db c0 (f, m)"
    and "m_db f' = m_db f" and "in_transit (f', m') \<subseteq> in_transit (f, m)"
    and "results (f', m') \<subseteq> results (f, m)" and "mt_cache m' = mt_cache m"
  shows "sound_inv W db c0 (f', m')"
proof -
  from assms(1,3) have "in_transit (f', m') \<subseteq> W" by (auto simp add: sound_inv_def)
  moreover from assms(1,4)
  have "\<forall>p \<in> results (f', m'). fst p \<in> W \<and> db (fst p) = Some (snd p)"
    by (auto simp add: sound_inv_def)
  ultimately show ?thesis using assms(1,2,5) by (simp add: sound_inv_def)
qed

lemma cover_inv_cong:
  assumes "cover_inv W db (f, m)"
    and "in_transit (f, m) \<subseteq> in_transit (f', m')"
    and "results (f, m) \<subseteq> results (f', m')" and "mt_cache m' = mt_cache m"
  shows "cover_inv W db (f', m')"
proof -
  have "p \<in> in_transit (f', m') \<or> p \<in> fst ` results (f', m') \<or>
        (\<exists>coin. db p = Some coin \<and> mt_cache m' p = Some (coin, False))" if "p \<in> W" for p
  proof -
    from assms(1) that have "p \<in> in_transit (f, m) \<or> p \<in> fst ` results (f, m) \<or>
        (\<exists>coin. db p = Some coin \<and> mt_cache m p = Some (coin, False))"
      by (simp add: cover_inv_def)
    with assms(2,3,4) show ?thesis by auto
  qed
  then show ?thesis by (simp add: cover_inv_def)
qed

lemma sound_inv_worker:
  assumes "sound_inv W db c0 (f, m)"
  shows "sound_inv W db c0 (Loop_step i f, m)"
proof (cases rule: worker_step_cases [of i f])
  case none
  with assms show ?thesis by simp
next
  case fetch
  let ?ws = "m_worker_threads f"
  let ?w' = "Loop_fetch (m_db f) (?ws ! i)"
  have eq: "Loop_step i f = f\<lparr> m_worker_threads := ?ws[i := ?w'] \<rparr>"
    using fetch by (intro Loop_step_fetch) simp_all
  note lf = Loop_fetch_facts [OF fetch(2)]
  note v = views_fetch [OF fetch(1) lf(4) lf(2) eq, of m]
  from assms have db: "m_db f = db" and t: "in_transit (f, m) \<subseteq> W"
    by (simp_all add: sound_inv_def)
  have new: "fst p \<in> W \<and> db (fst p) = Some (snd p)" if "p \<in> set (unmerged ?w')" for p
  proof -
    from that lf(6) have "p \<in> set (fetch_batch db (claimed (?ws ! i)) [])" using db by auto
    from fetch_batch_sound [OF this] v(1) t show ?thesis by auto
  qed
  have "in_transit (Loop_step i f, m) \<subseteq> W" using v(1) t by auto
  moreover have "\<forall>p \<in> results (Loop_step i f, m). fst p \<in> W \<and> db (fst p) = Some (snd p)"
    using assms new unfolding v(2) sound_inv_def by blast
  moreover have "m_db (Loop_step i f) = db" using db by (simp add: eq)
  ultimately show ?thesis using assms unfolding sound_inv_def fst_conv snd_conv by blast
next
  case locked
  let ?ws = "m_worker_threads f"
  from Loop_step_locked [OF locked(1) refl locked(2)]
  obtain Q' w' where eq: "Loop_step i f =
        f\<lparr> m_outpoints := Q', m_pairs := m_pairs f @ unmerged (?ws ! i),
           m_in_flight_fetches_count := m_in_flight_fetches_count f - of_nat (held (?ws ! i)),
           m_worker_threads := ?ws[i := w'] \<rparr>"
    and q: "Q' @ claimed w' = m_outpoints f" and u: "unmerged w' = []"
    by blast
  note v = views_locked [OF locked(1) locked_claimed [OF locked(2)] q u eq, of m]
  show ?thesis
    using assms by (rule sound_inv_cong) (simp_all add: v, simp add: eq)
qed

lemma cover_inv_worker:
  assumes "cover_inv W db (f, m)" and "sound_inv W db c0 (f, m)" and "control_inv (f, m)"
    and "W \<subseteq> dom db"
  shows "cover_inv W db (Loop_step i f, m)"
proof (cases rule: worker_step_cases [of i f])
  case none
  with assms show ?thesis by simp
next
  case fetch
  let ?ws = "m_worker_threads f"
  let ?w' = "Loop_fetch (m_db f) (?ws ! i)"
  have eq: "Loop_step i f = f\<lparr> m_worker_threads := ?ws[i := ?w'] \<rparr>"
    using fetch by (intro Loop_step_fetch) simp_all
  note lf = Loop_fetch_facts [OF fetch(2)]
  note v = views_fetch [OF fetch(1) lf(4) lf(2) eq, of m]
  from assms(2) have db: "m_db f = db" and t: "in_transit (f, m) \<subseteq> W"
    by (simp_all add: sound_inv_def)
  from assms(3) nth_mem [OF fetch(1)] fetch(2)
  have nz: "w_in_flight_fetches_count (?ws ! i) \<noteq> 0"
    by (auto simp add: control_inv_def list_all_iff)
  have "set (claimed (?ws ! i)) \<subseteq> dom db" using v(1) t assms(4) by auto
  from fetch_batch_complete [OF this] lf(5) [OF nz] db
  have "fst ` set (unmerged ?w') = set (claimed (?ws ! i))" by simp
  then have "in_transit (f, m) \<subseteq> in_transit (Loop_step i f, m) \<union> fst ` results (Loop_step i f, m)"
    using v by auto
  moreover have "results (f, m) \<subseteq> results (Loop_step i f, m)" using v(2) by auto
  ultimately show ?thesis using assms(1) unfolding cover_inv_def fst_conv snd_conv by blast
next
  case locked
  let ?ws = "m_worker_threads f"
  from Loop_step_locked [OF locked(1) refl locked(2)]
  obtain Q' w' where eq: "Loop_step i f =
        f\<lparr> m_outpoints := Q', m_pairs := m_pairs f @ unmerged (?ws ! i),
           m_in_flight_fetches_count := m_in_flight_fetches_count f - of_nat (held (?ws ! i)),
           m_worker_threads := ?ws[i := w'] \<rparr>"
    and q: "Q' @ claimed w' = m_outpoints f" and u: "unmerged w' = []"
    by blast
  note v = views_locked [OF locked(1) locked_claimed [OF locked(2)] q u eq, of m]
  show ?thesis
    using assms(1) by (rule cover_inv_cong) (simp_all add: v)
qed


subsection \<open>The invariants under a step of the calling thread\<close>

lemma Add_eq:
  "Add b f = f\<lparr> m_in_flight_fetches_count := m_in_flight_fetches_count f + of_nat (length b),
                m_outpoints := m_outpoints f @ b \<rparr>"
  by (simp add: Add_def)

lemma main_step_cases:
  obtains (add) b rest where "mt_pc m = Adding" "mt_adds m = b # rest"
      "FetchInputs_step (f, m) = (Add b f, m\<lparr> mt_adds := rest \<rparr>)"
  | (to_drain) "mt_pc m = Adding" "mt_adds m = []"
      "FetchInputs_step (f, m) = (f, m\<lparr> mt_pc := Draining \<rparr>)"
  | (ret) "mt_pc m = Draining"
      "m_request_stop f \<or> (m_pairs f = [] \<and> m_in_flight_fetches_count f = 0)"
      "FetchInputs_step (f, m) = (f, m\<lparr> mt_pc := Returned \<rparr>)"
  | (same) "FetchInputs_step (f, m) = (f, m)"
  | (drain) "mt_pc m = Draining" "\<not> m_request_stop f" "m_pairs f \<noteq> []"
      "FetchInputs_step (f, m) =
         (f\<lparr> m_pairs := [] \<rparr>, m\<lparr> mt_cache := emplace_all (m_pairs f) (mt_cache m) \<rparr>)"
proof (cases "mt_pc m")
  case Adding
  then show ?thesis
    using that(1,2) by (cases "mt_adds m") (simp_all add: FetchInputs_step_def)
next
  case Draining
  consider (a) "m_request_stop f"
    | (b) "\<not> m_request_stop f" "m_pairs f = []" "m_in_flight_fetches_count f = 0"
    | (c) "\<not> m_request_stop f" "m_pairs f = []" "m_in_flight_fetches_count f \<noteq> 0"
    | (d) "\<not> m_request_stop f" "m_pairs f \<noteq> []"
    by blast
  then show ?thesis
  proof cases
    case a
    with Draining show ?thesis by (intro that(3)) (simp_all add: FetchInputs_step_def)
  next
    case b
    with Draining show ?thesis by (intro that(3)) (simp_all add: FetchInputs_step_def)
  next
    case c
    with Draining show ?thesis by (intro that(4)) (simp_all add: FetchInputs_step_def)
  next
    case d
    with Draining show ?thesis by (intro that(5)) (simp_all add: FetchInputs_step_def)
  qed
next
  case Returned
  then show ?thesis using that(4) by (simp add: FetchInputs_step_def)
qed

lemma emplace_all_Cons:
  "emplace_all (x # P) c = emplace_all P (c(fst x \<mapsto> (snd x, False)))"
  by (simp add: EmplaceCoinInternalDANGER_def)

lemma emplace_all_cases:
  "emplace_all P c p = c p \<or> (\<exists>coin. (p, coin) \<in> set P \<and> emplace_all P c p = Some (coin, False))"
proof (induction P arbitrary: c)
  case Nil
  then show ?case by simp
next
  case (Cons x P)
  let ?c = "c(fst x \<mapsto> (snd x, False))"
  from Cons.IH [of ?c]
  consider "emplace_all P ?c p = ?c p"
    | coin where "(p, coin) \<in> set P" "emplace_all P ?c p = Some (coin, False)"
    by blast
  then show ?case
  proof cases
    case 1
    show ?thesis
    proof (cases "p = fst x")
      case True
      then have "(p, snd x) \<in> set (x # P)" by (cases x) simp
      moreover from 1 True have "emplace_all (x # P) c p = Some (snd x, False)"
        by (simp only: emplace_all_Cons) simp
      ultimately show ?thesis by blast
    next
      case False
      with 1 have "emplace_all (x # P) c p = c p" by (simp only: emplace_all_Cons) simp
      then show ?thesis ..
    qed
  next
    case 2
    then have "(p, coin) \<in> set (x # P)" "emplace_all (x # P) c p = Some (coin, False)"
      by (simp_all only: emplace_all_Cons set_simps insert_iff simp_thms)
    then show ?thesis by blast
  qed
qed

lemma emplace_all_hit:
  "(p, coin) \<in> set P \<Longrightarrow> \<exists>coin'. (p, coin') \<in> set P \<and> emplace_all P c p = Some (coin', False)"
proof (induction P arbitrary: c)
  case Nil
  then show ?case by simp
next
  case (Cons x P)
  let ?c = "c(fst x \<mapsto> (snd x, False))"
  show ?case
  proof (cases "(p, coin) \<in> set P")
    case True
    from Cons.IH [OF True, of ?c]
    obtain coin' where "(p, coin') \<in> set P" "emplace_all P ?c p = Some (coin', False)" by blast
    then have "(p, coin') \<in> set (x # P)" "emplace_all (x # P) c p = Some (coin', False)"
      by (simp_all only: emplace_all_Cons set_simps insert_iff simp_thms)
    then show ?thesis by blast
  next
    case False
    with Cons.prems have x: "x = (p, coin)" by simp
    from emplace_all_cases [of P ?c p]
    consider "emplace_all P ?c p = ?c p"
      | coin' where "(p, coin') \<in> set P" "emplace_all P ?c p = Some (coin', False)"
      by blast
    then show ?thesis
    proof cases
      case 1
      then have "emplace_all (x # P) c p = Some (coin, False)"
        by (simp only: emplace_all_Cons) (simp add: x)
      with Cons.prems show ?thesis by blast
    next
      case 2
      then have "(p, coin') \<in> set (x # P)" "emplace_all (x # P) c p = Some (coin', False)"
        by (simp_all only: emplace_all_Cons set_simps insert_iff simp_thms)
      then show ?thesis by blast
    qed
  qed
qed

lemma Add_db: "m_db (Add b f) = m_db f"
  by (simp add: Add_def)

lemma counter_inv_main:
  assumes "counter_inv (f, m)"
  shows "counter_inv (FetchInputs_step (f, m))"
proof (cases rule: main_step_cases [of m f])
  case (add b rest)
  from assms have c: "unat (m_in_flight_fetches_count f) =
      length (m_outpoints f) + sum_list (map held (m_worker_threads f))"
    and b: "length (m_outpoints f) + sum_list (map held (m_worker_threads f))
        + length (concat (mt_adds m)) < 2 ^ 64"
    by (simp_all add: counter_inv_def in_flight_invariant_iff)
  have "unat (m_in_flight_fetches_count f + of_nat (length b)) =
      unat (m_in_flight_fetches_count f) + length b"
    using c b add(2) by (intro unat_add_of_nat) simp
  with c b add(2) show ?thesis
    by (simp add: add(3) Add_eq counter_inv_def in_flight_invariant_iff)
next
  case to_drain
  with assms show ?thesis by (simp add: counter_inv_def)
next
  case ret
  with assms show ?thesis by (simp add: counter_inv_def)
next
  case same
  with assms show ?thesis by simp
next
  case drain
  with assms show ?thesis by (simp add: counter_inv_def in_flight_invariant_iff)
qed

lemma control_inv_main:
  assumes "control_inv (f, m)"
  shows "control_inv (FetchInputs_step (f, m))"
proof (cases rule: main_step_cases [of m f])
  case (add b rest)
  with assms show ?thesis by (simp add: control_inv_def Add_eq)
next
  case to_drain
  with assms show ?thesis by (simp add: control_inv_def)
next
  case ret
  with assms show ?thesis by (auto simp add: control_inv_def)
next
  case same
  with assms show ?thesis by simp
next
  case drain
  with assms show ?thesis by (simp add: control_inv_def)
qed

lemma views_pc:
  "in_transit (f, m\<lparr> mt_pc := x \<rparr>) = in_transit (f, m)"
  "results (f, m\<lparr> mt_pc := x \<rparr>) = results (f, m)"
  by (simp_all add: in_transit_def results_def)

lemma views_add:
  assumes "mt_adds m = b # rest"
  shows "in_transit (Add b f, m\<lparr> mt_adds := rest \<rparr>) = in_transit (f, m)"
    and "results (Add b f, m\<lparr> mt_adds := rest \<rparr>) = results (f, m)"
  using assms by (simp_all add: in_transit_def results_def Add_eq Un_ac)

lemma views_drain:
  "in_transit (f\<lparr> m_pairs := [] \<rparr>, m\<lparr> mt_cache := c \<rparr>) = in_transit (f, m)"
  "results (f\<lparr> m_pairs := [] \<rparr>, m\<lparr> mt_cache := c \<rparr>) \<union> set (m_pairs f) = results (f, m)"
  by (simp_all add: in_transit_def results_def Un_ac)

lemma sound_inv_main:
  assumes "sound_inv W db c0 (f, m)"
  shows "sound_inv W db c0 (FetchInputs_step (f, m))"
proof (cases rule: main_step_cases [of m f])
  case (add b rest)
  show ?thesis
    unfolding add(3) using assms
    by (rule sound_inv_cong) (simp_all add: views_add [OF add(2)] Add_db)
next
  case to_drain
  show ?thesis
    unfolding to_drain(3) using assms by (rule sound_inv_cong) (simp_all add: views_pc)
next
  case ret
  show ?thesis
    unfolding ret(3) using assms by (rule sound_inv_cong) (simp_all add: views_pc)
next
  case same
  with assms show ?thesis by simp
next
  case drain
  let ?c = "emplace_all (m_pairs f) (mt_cache m)"
  let ?f' = "f\<lparr> m_pairs := [] \<rparr>"
  let ?m' = "m\<lparr> mt_cache := ?c \<rparr>"
  note v = views_drain [where f = f and m = m and c = ?c]
  from assms have r: "\<forall>p \<in> results (f, m). fst p \<in> W \<and> db (fst p) = Some (snd p)"
    and c: "\<forall>p. mt_cache m p = c0 p \<or>
        (p \<in> W \<and> (\<exists>coin. db p = Some coin \<and> mt_cache m p = Some (coin, False)))"
    and t: "in_transit (f, m) \<subseteq> W" and d: "m_db f = db"
    by (simp_all add: sound_inv_def)
  have "?c p = c0 p \<or> (p \<in> W \<and> (\<exists>coin. db p = Some coin \<and> ?c p = Some (coin, False)))" for p
  proof -
    from emplace_all_cases [of "m_pairs f" "mt_cache m" p]
    consider "?c p = mt_cache m p"
      | coin where "(p, coin) \<in> set (m_pairs f)" "?c p = Some (coin, False)"
      by blast
    then show ?thesis
    proof cases
      case 1
      with c show ?thesis by metis
    next
      case 2
      from 2(1) v(2) have "(p, coin) \<in> results (f, m)" by auto
      with r have "p \<in> W \<and> db p = Some coin" by fastforce
      with 2(2) show ?thesis by simp
    qed
  qed
  moreover have "\<forall>p \<in> results (?f', ?m'). fst p \<in> W \<and> db (fst p) = Some (snd p)"
    using r v(2) by blast
  ultimately show ?thesis
    unfolding drain(4) using t d by (simp add: sound_inv_def v(1))
qed

lemma cover_inv_main:
  assumes "cover_inv W db (f, m)" and "sound_inv W db c0 (f, m)"
  shows "cover_inv W db (FetchInputs_step (f, m))"
proof (cases rule: main_step_cases [of m f])
  case (add b rest)
  show ?thesis
    unfolding add(3) using assms(1)
    by (rule cover_inv_cong) (simp_all add: views_add [OF add(2)])
next
  case to_drain
  show ?thesis
    unfolding to_drain(3) using assms(1) by (rule cover_inv_cong) (simp_all add: views_pc)
next
  case ret
  show ?thesis
    unfolding ret(3) using assms(1) by (rule cover_inv_cong) (simp_all add: views_pc)
next
  case same
  with assms show ?thesis by simp
next
  case drain
  let ?c = "emplace_all (m_pairs f) (mt_cache m)"
  let ?f' = "f\<lparr> m_pairs := [] \<rparr>"
  let ?m' = "m\<lparr> mt_cache := ?c \<rparr>"
  note v = views_drain [where f = f and m = m and c = ?c]
  from assms(2) have r: "\<forall>p \<in> results (f, m). fst p \<in> W \<and> db (fst p) = Some (snd p)"
    by (simp add: sound_inv_def)
  have "p \<in> in_transit (?f', ?m') \<or> p \<in> fst ` results (?f', ?m') \<or>
        (\<exists>coin. db p = Some coin \<and> ?c p = Some (coin, False))" if "p \<in> W" for p
  proof -
    from assms(1) that
    consider "p \<in> in_transit (f, m)" | "p \<in> fst ` results (?f', ?m')"
      | coin where "(p, coin) \<in> set (m_pairs f)"
      | coin where "db p = Some coin" "mt_cache m p = Some (coin, False)"
      unfolding cover_inv_def v(2) [symmetric] by fastforce
    then show ?thesis
    proof cases
      case 1
      then show ?thesis by (simp add: v(1))
    next
      case 2
      then show ?thesis by simp
    next
      case 3
      from emplace_all_hit [OF 3, of "mt_cache m"]
      obtain coin' where h: "(p, coin') \<in> set (m_pairs f)" "?c p = Some (coin', False)" by blast
      from h(1) v(2) have "(p, coin') \<in> results (f, m)" by auto
      with r have "db p = Some coin'" by fastforce
      with h(2) show ?thesis by simp
    next
      case 4
      from emplace_all_cases [of "m_pairs f" "mt_cache m" p]
      consider "?c p = mt_cache m p"
        | coin' where "(p, coin') \<in> set (m_pairs f)" "?c p = Some (coin', False)"
        by blast
      then show ?thesis
      proof cases
        case 1
        with 4 show ?thesis by simp
      next
        case 2
        from 2(1) v(2) have "(p, coin') \<in> results (f, m)" by auto
        with r have "db p = Some coin'" by fastforce
        with 2(2) show ?thesis by simp
      qed
    qed
  qed
  then show ?thesis unfolding drain(4) by (simp add: cover_inv_def)
qed


subsection \<open>The invariants along a run\<close>

lemma counter_inv_stop: "counter_inv (f, m) \<Longrightarrow> counter_inv (request_stop f, m)"
  by (simp add: counter_inv_def in_flight_invariant_iff request_stop_def)

lemma control_inv_stop: "control_inv (f, m) \<Longrightarrow> control_inv (request_stop f, m)"
  by (simp add: control_inv_def request_stop_def)

lemma views_stop:
  "in_transit (request_stop f, m) = in_transit (f, m)"
  "results (request_stop f, m) = results (f, m)"
  by (simp_all add: in_transit_def results_def request_stop_def)

lemma sound_inv_stop: "sound_inv W db c0 (f, m) \<Longrightarrow> sound_inv W db c0 (request_stop f, m)"
  by (erule sound_inv_cong) (simp_all add: views_stop, simp add: request_stop_def)

lemma cover_inv_stop: "cover_inv W db (f, m) \<Longrightarrow> cover_inv W db (request_stop f, m)"
  by (erule cover_inv_cong) (simp_all add: views_stop)

lemma counter_inv_step: "counter_inv s \<Longrightarrow> counter_inv (step e s)"
  by (cases s; cases e) (simp_all add: counter_inv_main counter_inv_worker counter_inv_stop)

lemma counter_inv_run: "counter_inv s \<Longrightarrow> counter_inv (run es s)"
  by (induction es arbitrary: s) (simp_all add: counter_inv_step)

lemma control_inv_step: "control_inv s \<Longrightarrow> counter_inv s \<Longrightarrow> control_inv (step e s)"
  by (cases s; cases e) (simp_all add: control_inv_main control_inv_worker control_inv_stop)

lemma sound_inv_step: "sound_inv W db c0 s \<Longrightarrow> sound_inv W db c0 (step e s)"
  by (cases s; cases e) (simp_all add: sound_inv_main sound_inv_worker sound_inv_stop)

lemma cover_inv_step:
  "cover_inv W db s \<Longrightarrow> sound_inv W db c0 s \<Longrightarrow> control_inv s \<Longrightarrow> W \<subseteq> dom db \<Longrightarrow>
     cover_inv W db (step e s)"
  by (cases s; cases e)
    (simp_all add: cover_inv_main cover_inv_worker [where ?c0.0 = c0] cover_inv_stop)

lemma sound_inv_run: "sound_inv W db c0 s \<Longrightarrow> sound_inv W db c0 (run es s)"
  by (induction es arbitrary: s) (simp_all add: sound_inv_step)

lemma control_inv_run: "control_inv s \<Longrightarrow> counter_inv s \<Longrightarrow> control_inv (run es s)"
  by (induction es arbitrary: s) (simp_all add: control_inv_step counter_inv_step)

lemma cover_inv_run:
  "cover_inv W db s \<Longrightarrow> sound_inv W db c0 s \<Longrightarrow> control_inv s \<Longrightarrow> counter_inv s \<Longrightarrow>
     W \<subseteq> dom db \<Longrightarrow> cover_inv W db (run es s)"
proof (induction es arbitrary: s)
  case Nil
  then show ?case by simp
next
  case (Cons e es)
  have "cover_inv W db (step e s)"
    using Cons.prems by (intro cover_inv_step [where ?c0.0 = c0])
  moreover have "sound_inv W db c0 (step e s)" using Cons.prems by (intro sound_inv_step)
  moreover have "control_inv (step e s)" using Cons.prems by (intro control_inv_step)
  moreover have "counter_inv (step e s)" using Cons.prems by (intro counter_inv_step)
  ultimately show ?case using Cons.IH [of "step e s"] Cons.prems(5) by simp
qed


subsection \<open>The scan of the block\<close>

lemma scan_vin_concat:
  "(case scan_vin c bs T ins (buf, adds) of (b, a) \<Rightarrow> concat a @ b) =
     concat adds @ buf @
       filter (\<lambda>p. op_hash p \<notin> T \<and> \<not> HaveCoinInCache c p) (map prevout ins)"
  by (induction ins arbitrary: buf adds) (simp_all add: Let_def)

lemma scan_vtx_concat:
  "concat (scan_vtx c bs T txs (buf, adds)) = concat adds @ buf @ scanned_outpoints c T txs"
proof (induction txs arbitrary: T buf adds)
  case Nil
  then show ?case by simp
next
  case (Cons tx txs)
  show ?case
  proof (cases "IsCoinBase tx")
    case True
    then show ?thesis by (simp add: Cons.IH)
  next
    case False
    obtain b a where ba: "scan_vin c bs T (vin tx) (buf, adds) = (b, a)" by fastforce
    with scan_vin_concat [of c bs T "vin tx" buf adds]
    have "concat a @ b = concat adds @ buf @
        filter (\<lambda>p. op_hash p \<notin> T \<and> \<not> HaveCoinInCache c p) (map prevout (vin tx))"
      by simp
    with False show ?thesis by (simp add: ba Cons.IH)
  qed
qed

lemma scanned_length: "length (scanned_outpoints c T txs) \<le> sum_list (map (\<lambda>tx. length (vin tx)) txs)"
proof (induction txs arbitrary: T)
  case Nil
  then show ?case by simp
next
  case (Cons tx txs)
  have "length (filter (\<lambda>p. op_hash p \<notin> T \<and> \<not> HaveCoinInCache c p) (map prevout (vin tx)))
      \<le> length (vin tx)"
    using length_filter_le [of _ "map prevout (vin tx)"] by simp
  with Cons.IH [of T] Cons.IH [of "insert (GetHash tx) T"] show ?case
    by (simp add: le_SucI add_mono trans_le_add2)
qed

lemma scanned_not_cached: "p \<in> set (scanned_outpoints c T txs) \<Longrightarrow> c p = None"
  by (induction txs arbitrary: T)
    (auto simp add: HaveCoinInCache_def split: if_splits intro: option.exhaust)

lemma spec_outpoints_scanned:
  "no_coinbase_spend cb txs \<Longrightarrow> spec_outpoints c (T \<union> cb) txs = scanned_outpoints c T txs"
proof (induction txs arbitrary: T cb)
  case Nil
  then show ?case by simp
next
  case (Cons tx txs)
  show ?case
  proof (cases "IsCoinBase tx")
    case True
    with Cons.prems have "no_coinbase_spend (insert (GetHash tx) cb) txs" by simp
    from Cons.IH [OF this, of T] True show ?thesis by simp
  next
    case False
    with Cons.prems have a: "list_all (\<lambda>inp. op_hash (prevout inp) \<notin> cb) (vin tx)"
      and n: "no_coinbase_spend cb txs" by simp_all
    from a have "filter (\<lambda>p. op_hash p \<notin> T \<union> cb \<and> \<not> HaveCoinInCache c p) (map prevout (vin tx)) =
        filter (\<lambda>p. op_hash p \<notin> T \<and> \<not> HaveCoinInCache c p) (map prevout (vin tx))"
      by (intro filter_cong) (auto simp add: list_all_iff)
    with Cons.IH [OF n, of "insert (GetHash tx) T"] False show ?thesis by simp
  qed
qed


subsection \<open>The start and the end of a call\<close>

lemma idle_worker_facts:
  assumes "idle_worker w"
  shows "held w = 0" and "claimed w = []" and "unmerged w = []"
    and "w_pc w \<noteq> Faulted" and "w_pc w \<noteq> AtFetch"
  using assms by (auto simp add: idle_worker_def held_def claimed_def unmerged_def)

lemma idle_sum: "list_all idle_worker ws \<Longrightarrow> sum_list (map held ws) = 0"
  by (induction ws) (simp_all add: idle_worker_facts)

lemma begin_views:
  assumes "idle f"
  shows "in_transit (FetchInputs_begin f c db block) =
           set (scanned_outpoints c {} (vtx block))"
    and "results (FetchInputs_begin f c db block) = {}"
  using assms
  by (simp_all add: FetchInputs_begin_def in_transit_def results_def idle_def list_all_iff
      idle_worker_facts scan_vtx_concat)

lemma begin_counter_inv:
  assumes "idle f" and "block_inputs block < 2 ^ 64"
  shows "counter_inv (FetchInputs_begin f c db block)"
proof -
  from assms(1) have "list_all idle_worker (m_worker_threads f)" by (simp add: idle_def)
  then have "sum_list (map held (m_worker_threads f)) = 0" by (rule idle_sum)
  moreover have "length (scanned_outpoints c {} (vtx block)) < 2 ^ 64"
    using scanned_length [of c "{}" "vtx block"] assms(2) by (simp add: block_inputs_def)
  moreover from assms(1) have "m_outpoints f = []" "m_in_flight_fetches_count f = 0"
    by (simp_all add: idle_def)
  ultimately show ?thesis
    by (simp add: FetchInputs_begin_def counter_inv_def in_flight_invariant_iff
        scan_vtx_concat del: sum_list_eq_0_iff)
qed

lemma begin_control_inv:
  assumes "idle f" and "length (m_worker_threads f) < 2 ^ 64"
  shows "control_inv (FetchInputs_begin f c db block)"
  using assms
  by (simp add: FetchInputs_begin_def control_inv_def idle_def list_all_iff idle_worker_facts)

lemma begin_sound_inv:
  assumes "idle f"
  shows "sound_inv (set (scanned_outpoints c {} (vtx block))) db c
           (FetchInputs_begin f c db block)"
  unfolding sound_inv_def begin_views [OF assms]
  by (simp add: FetchInputs_begin_def)

lemma begin_cover_inv:
  assumes "idle f"
  shows "cover_inv (set (scanned_outpoints c {} (vtx block))) db
           (FetchInputs_begin f c db block)"
  unfolding cover_inv_def begin_views [OF assms] by simp

lemma quiet_at_return:
  assumes "counter_inv (f, m)" and "control_inv (f, m)"
    and "mt_pc m = Returned" and "\<not> m_request_stop f"
  shows "in_transit (f, m) = {}" and "results (f, m) = {}"
proof -
  from assms(2,3,4) have p: "m_pairs f = []" and z: "m_in_flight_fetches_count f = 0"
    and a: "mt_adds m = []"
    by (simp_all add: control_inv_def)
  note h = counter_inv_held_zero [OF assms(1) z]
  have "claimed w = []" "unmerged w = []" if "w \<in> set (m_worker_threads f)" for w
  proof -
    from h(2) that have hz: "held w = 0" by blast
    then show "unmerged w = []" by (rule held_zero_unmerged)
    from assms(2) that have "w_pc w = AtFetch \<longrightarrow> w_in_flight_fetches_count w \<noteq> 0"
      by (simp add: control_inv_def list_all_iff)
    with hz show "claimed w = []"
      by (auto simp add: held_def claimed_def unat_eq_0 split: if_splits)
  qed
  then show "in_transit (f, m) = {}" and "results (f, m) = {}"
    using p a h(1) by (simp_all add: in_transit_def results_def)
qed

lemma FetchInputs_invs:
  fixes c :: CCoinsViewCache and block :: CBlock
  assumes "idle f" and "length (m_worker_threads f) < 2 ^ 64" and "block_inputs block < 2 ^ 64"
  defines "W \<equiv> set (scanned_outpoints c {} (vtx block))"
  shows "counter_inv (FetchInputs sched f c db block)"
    and "control_inv (FetchInputs sched f c db block)"
    and "sound_inv W db c (FetchInputs sched f c db block)"
    and "W \<subseteq> dom db \<Longrightarrow> cover_inv W db (FetchInputs sched f c db block)"
proof -
  note cn = begin_counter_inv [OF assms(1,3), of c db]
  note ct = begin_control_inv [OF assms(1,2), of c db block]
  note so = begin_sound_inv [OF assms(1), of c block db]
  note cv = begin_cover_inv [OF assms(1), of c block db]
  show "counter_inv (FetchInputs sched f c db block)"
    unfolding FetchInputs_def using cn by (rule counter_inv_run)
  show "control_inv (FetchInputs sched f c db block)"
    unfolding FetchInputs_def using ct cn by (rule control_inv_run)
  show "sound_inv W db c (FetchInputs sched f c db block)"
    unfolding FetchInputs_def W_def using so by (rule sound_inv_run)
  show "cover_inv W db (FetchInputs sched f c db block)" if "W \<subseteq> dom db"
    unfolding FetchInputs_def W_def using cv so ct cn that [unfolded W_def]
    by (rule cover_inv_run)
qed

lemma final_cache:
  fixes c :: CCoinsViewCache and block :: CBlock and db :: CCoinsViewDB
    and f :: InputFetcher and sched :: "event list"
  assumes "idle f" and "length (m_worker_threads f) < 2 ^ 64" and "block_inputs block < 2 ^ 64"
    and "returned (FetchInputs sched f c db block)"
    and "\<not> m_request_stop (fst (FetchInputs sched f c db block))"
  defines "W \<equiv> set (scanned_outpoints c {} (vtx block))"
    and "c' \<equiv> mt_cache (snd (FetchInputs sched f c db block))"
  shows "\<forall>p. c' p = c p \<or> (p \<in> W \<and> (\<exists>coin. db p = Some coin \<and> c' p = Some (coin, False)))"
    and "W \<subseteq> dom db \<Longrightarrow>
           c' = (\<lambda>p. if p \<in> W then map_option (\<lambda>coin. (coin, False)) (db p) else c p)"
proof -
  let ?s = "FetchInputs sched f c db block"
  note inv = FetchInputs_invs [OF assms(1,2,3), where sched = sched and c = c and db = db]
  show s: "\<forall>p. c' p = c p \<or> (p \<in> W \<and> (\<exists>coin. db p = Some coin \<and> c' p = Some (coin, False)))"
    using inv(3) by (simp add: sound_inv_def W_def c'_def)
  show "c' = (\<lambda>p. if p \<in> W then map_option (\<lambda>coin. (coin, False)) (db p) else c p)"
    if sub: "W \<subseteq> dom db"
  proof
    fix p
    from quiet_at_return [of "fst ?s" "snd ?s"] inv(1,2) assms(4,5)
    have q: "in_transit ?s = {}" "results ?s = {}" by (simp_all add: returned_def)
    show "c' p = (if p \<in> W then map_option (\<lambda>coin. (coin, False)) (db p) else c p)"
    proof (cases "p \<in> W")
      case True
      from inv(4) sub True q
      have "\<exists>coin. db p = Some coin \<and> c' p = Some (coin, False)"
        by (auto simp add: cover_inv_def W_def c'_def)
      with True show ?thesis by auto
    next
      case False
      with s show ?thesis by auto
    qed
  qed
qed


lemma FetchInputs_leaves_idle:
  assumes "idle f" and "length (m_worker_threads f) < 2 ^ 64" and "block_inputs block < 2 ^ 64"
    and "returned (FetchInputs sched f c db block)"
    and "\<not> m_request_stop (fst (FetchInputs sched f c db block))"
  shows "idle (fst (FetchInputs sched f c db block))"
proof -
  obtain g m where s: "FetchInputs sched f c db block = (g, m)" by fastforce
  note inv = FetchInputs_invs(1,2) [OF assms(1,2,3), where sched = sched and c = c and db = db]
  from inv(2) assms(4,5) have p: "m_pairs g = []" and z: "m_in_flight_fetches_count g = 0"
    by (simp_all add: s control_inv_def returned_def)
  from inv(1) have ci: "counter_inv (g, m)" by (simp add: s)
  note h = counter_inv_held_zero [OF ci z]
  have "idle_worker w" if "w \<in> set (m_worker_threads g)" for w
  proof -
    from h(2) that have hz: "held w = 0" by blast
    from inv(2) that have "w_pc w \<noteq> Faulted"
      and "w_pc w = AtFetch \<longrightarrow> w_in_flight_fetches_count w \<noteq> 0"
      by (simp_all add: s control_inv_def list_all_iff)
    with hz show ?thesis
      by (cases "w_pc w") (auto simp add: idle_worker_def held_def unat_eq_0)
  qed
  with p z h(1) show ?thesis by (simp add: s idle_def list_all_iff)
qed

subsection \<open>The sample runs\<close>

lemmas run_defs = FetchInputs_def FetchInputs_begin_def InputFetcher_init_def worker_init_def
  FetchInputs_step_def Loop_step_def Loop_claim_def Loop_merge_def Loop_fetch_def Add_def
  batch_count_def pop_batch_def set_worker_def request_stop_def returned_def
  HaveCoinInCache_def EmplaceCoinInternalDANGER_def GetCoin_def IsCoinBase_def GetHash_def
  Let_def

lemmas sample_defs = sample_block_def store_full_def store_without_A_def opA_def opB_def
  coinA_def coinB_def sched_one_batch_def sched_two_batches_def

lemma idle_init: "idle (InputFetcher_init batch_size worker_thread_count)"
  by (simp add: idle_def InputFetcher_init_def worker_init_def idle_worker_def list_all_iff)

lemma length_init:
  "length (m_worker_threads (InputFetcher_init batch_size worker_thread_count)) < 2 ^ 64"
  using unsigned_less [of worker_thread_count, where 'a = nat]
  by (simp add: InputFetcher_init_def)

lemma sample_block_inputs: "block_inputs sample_block < 2 ^ 64"
  by (simp add: block_inputs_def sample_block_def)


lemma sample_spec: "spec_outpoints Map.empty {} (vtx sample_block) = [opA, opB]"
  by (simp add: sample_block_def IsCoinBase_def GetHash_def HaveCoinInCache_def opA_def opB_def)

lemma sample_no_coinbase_spend: "no_coinbase_spend {} (vtx sample_block)"
  by (simp add: sample_block_def IsCoinBase_def GetHash_def opA_def opB_def)

lemma run_one_missing:
  "returned (FetchInputs sched_one_batch (InputFetcher_init 2 1) Map.empty store_without_A sample_block)"
  "\<not> m_request_stop (fst (FetchInputs sched_one_batch (InputFetcher_init 2 1) Map.empty store_without_A sample_block))"
  "mt_cache (snd (FetchInputs sched_one_batch (InputFetcher_init 2 1) Map.empty store_without_A sample_block)) = Map.empty"
  by (simp_all add: run_defs sample_defs)



lemma run_two_full:
  "returned (FetchInputs sched_two_batches (InputFetcher_init 2 2) Map.empty store_full sample_block)"
  "\<not> m_request_stop (fst (FetchInputs sched_two_batches (InputFetcher_init 2 2) Map.empty store_full sample_block))"
  by (simp_all add: run_defs sample_defs)



subsection \<open>The claims\<close>

text \<open>
  C1, as stated, fails: the sample block asks for \<open>opA\<close> and \<open>opB\<close>, the store lacks
  \<open>opA\<close>, and with one worker \<open>FetchInputs\<close> returns with nothing added to the cache.
\<close>

theorem FetchInputs_skips_missing_coin:
  "returned (FetchInputs sched_one_batch (InputFetcher_init 2 1) Map.empty store_without_A
      sample_block) \<and>
   \<not> m_request_stop (fst (FetchInputs sched_one_batch (InputFetcher_init 2 1) Map.empty
      store_without_A sample_block)) \<and>
   dom (mt_cache (snd (FetchInputs sched_one_batch (InputFetcher_init 2 1) Map.empty
          store_without_A sample_block))) - dom (Map.empty :: CCoinsViewCache) \<noteq>
     set (spec_outpoints Map.empty {} (vtx sample_block))"
  by (simp add: run_one_missing sample_spec)

text \<open>
  C1, amended. Take a fetcher at rest, a block in which no input refers to a coinbase
  of the same block, and a call of \<open>FetchInputs\<close> that has returned with no stop
  requested. Then the outpoints that are in the cache and were not there before are
  among the outpoints referenced by the block's non-coinbase inputs whose transaction id
  is not the id of an earlier transaction of the block and which were not in the cache,
  and all of them are in the store; and when the store holds every such outpoint, they
  are exactly these outpoints. The block has fewer than \<open>2 ^ 64\<close> inputs and the fetcher
  fewer than \<open>2 ^ 64\<close> workers.
\<close>

theorem FetchInputs_new_outpoints:
  assumes "idle f" and "length (m_worker_threads f) < 2 ^ 64" and "block_inputs block < 2 ^ 64"
    and "no_coinbase_spend {} (vtx block)"
    and "returned (FetchInputs sched f c db block)"
    and "\<not> m_request_stop (fst (FetchInputs sched f c db block))"
  shows "let c' = mt_cache (snd (FetchInputs sched f c db block));
             wanted = set (spec_outpoints c {} (vtx block))
         in dom c' - dom c \<subseteq> wanted \<inter> dom db \<and>
            (wanted \<subseteq> dom db \<longrightarrow> dom c' - dom c = wanted)"
proof -
  let ?c' = "mt_cache (snd (FetchInputs sched f c db block))"
  let ?W = "set (scanned_outpoints c {} (vtx block))"
  have w: "set (spec_outpoints c {} (vtx block)) = ?W"
    using spec_outpoints_scanned [OF assms(4), of c "{}"] by simp
  note fc = final_cache [OF assms(1,2,3,5,6)]
  have a: "dom ?c' - dom c \<subseteq> ?W \<inter> dom db"
  proof
    fix p assume "p \<in> dom ?c' - dom c"
    then have "?c' p \<noteq> c p" by auto
    with fc(1) show "p \<in> ?W \<inter> dom db" by blast
  qed
  have b: "dom ?c' - dom c = ?W" if "?W \<subseteq> dom db"
  proof
    show "dom ?c' - dom c \<subseteq> ?W" using a by blast
    show "?W \<subseteq> dom ?c' - dom c"
    proof
      fix p assume p: "p \<in> ?W"
      then have "c p = None" by (rule scanned_not_cached)
      moreover from p that have "db p \<noteq> None" by auto
      then have "?c' p \<noteq> None" using p by (subst fc(2) [OF that]) auto
      ultimately show "p \<in> dom ?c' - dom c" by auto
    qed
  qed
  from a b show ?thesis by (simp only: Let_def w) blast
qed

theorem FetchInputs_new_outpoints_witness:
  "idle (InputFetcher_init 2 2) \<and>
   length (m_worker_threads (InputFetcher_init 2 2)) < 2 ^ 64 \<and>
   block_inputs sample_block < 2 ^ 64 \<and>
   no_coinbase_spend {} (vtx sample_block) \<and>
   returned (FetchInputs sched_two_batches (InputFetcher_init 2 2) Map.empty store_full sample_block) \<and>
   \<not> m_request_stop (fst (FetchInputs sched_two_batches (InputFetcher_init 2 2) Map.empty
         store_full sample_block)) \<and>
   set (spec_outpoints Map.empty {} (vtx sample_block)) \<subseteq> dom store_full \<and>
   dom (mt_cache (snd (FetchInputs sched_two_batches (InputFetcher_init 2 2) Map.empty
          store_full sample_block))) - dom (Map.empty :: CCoinsViewCache) = {opA, opB}"
proof -
  have sub: "set (spec_outpoints Map.empty {} (vtx sample_block)) \<subseteq> dom store_full"
    by (simp add: sample_spec store_full_def)
  show ?thesis
    using FetchInputs_new_outpoints [OF idle_init length_init sample_block_inputs
        sample_no_coinbase_spend run_two_full] sub
      idle_init [of 2 2] length_init [of 2 2] sample_block_inputs
    by (simp add: Let_def sample_no_coinbase_spend run_two_full sample_spec)
qed

text \<open>
  C3. From a fetcher at rest, after every schedule of steps of \<open>Add\<close> and the draining
  loop of \<open>FetchInputs\<close>, of \<open>Loop\<close> in any worker, and of the destructor (that is, at
  every point where the mutex is released), the in-flight counter is not negative and
  equals the length of the outpoint queue plus the sizes of the batches that workers
  have claimed and not yet merged. The block has fewer than \<open>2 ^ 64\<close> inputs.
\<close>

theorem in_flight_counter_invariant:
  assumes "idle f" and "block_inputs block < 2 ^ 64"
  shows "in_flight_invariant (fst (FetchInputs sched f c db block))"
  using counter_inv_run [OF begin_counter_inv [OF assms], of sched c db]
  by (simp add: FetchInputs_def counter_inv_def)

theorem in_flight_counter_invariant_witness:
  "idle (InputFetcher_init 2 2) \<and> block_inputs sample_block < 2 ^ 64 \<and>
   (let f = fst (FetchInputs [MainStep, WorkerStep 0] (InputFetcher_init 2 2) Map.empty
                   store_full sample_block)
    in in_flight_invariant f \<and> m_in_flight_fetches_count f = 2 \<and>
       length (m_outpoints f) = 1 \<and>
       held (m_worker_threads f ! 0) = 1 \<and> held (m_worker_threads f ! 1) = 0)"
proof -
  have "let f = fst (FetchInputs [MainStep, WorkerStep 0] (InputFetcher_init 2 2) Map.empty
                   store_full sample_block)
    in m_in_flight_fetches_count f = 2 \<and>
       length (m_outpoints f) = 1 \<and>
       held (m_worker_threads f ! 0) = 1 \<and> held (m_worker_threads f ! 1) = 0"
    by (simp add: run_defs sample_defs held_def)
  then show ?thesis
    using in_flight_counter_invariant [OF idle_init sample_block_inputs,
        where batch_size1 = 2 and worker_thread_count1 = 2
          and sched = "[MainStep, WorkerStep 0]" and c = Map.empty and db = store_full]
      sample_block_inputs
    by (simp add: Let_def idle_init)
qed

text \<open>
  C4. A worker that reads its claimed batch produces exactly the (outpoint, coin) pairs
  of the longest prefix of the batch whose lookups in the store all succeed: it stops at
  the first outpoint the store does not hold. The pairs stay with the worker, and its
  next step, whatever the other threads did meanwhile, appends them to the shared
  result queue.
\<close>

theorem fetch_stops_at_first_missing:
  assumes "i < length (m_worker_threads f)"
    and "w_pc (m_worker_threads f ! i) = AtFetch"
    and "w_in_flight_fetches_count (m_worker_threads f ! i) \<noteq> 0"
  shows "let batch = w_outpoints (m_worker_threads f ! i);
             found = map (\<lambda>p. (p, the (m_db f p))) (takeWhile (\<lambda>p. m_db f p \<noteq> None) batch);
             w' = m_worker_threads (Loop_step i f) ! i
         in fetch_batch (m_db f) batch [] = found \<and>
            w_pairs w' = found \<and> w_pc w' = AtLoopTop \<and>
            (\<forall>g. i < length (m_worker_threads g) \<and> m_worker_threads g ! i = w' \<longrightarrow>
                 m_pairs (Loop_step i g) = m_pairs g @ found)"
proof -
  let ?w = "m_worker_threads f ! i"
  let ?found = "map (\<lambda>p. (p, the (m_db f p))) (takeWhile (\<lambda>p. m_db f p \<noteq> None) (w_outpoints ?w))"
  let ?w' = "Loop_fetch (m_db f) ?w"
  have fb: "fetch_batch (m_db f) (w_outpoints ?w) [] = ?found"
    by (simp only: fetch_batch_acc append_Nil)
  have w': "m_worker_threads (Loop_step i f) ! i = ?w'"
    using Loop_step_fetch [OF assms(1) refl assms(2)] assms(1) by simp
  have p: "w_pairs ?w' = ?found" "w_pc ?w' = AtLoopTop" "unmerged ?w' = ?found"
    using assms(3) fb by (simp_all add: Loop_fetch_def unmerged_def)
  have "m_pairs (Loop_step i g) = m_pairs g @ ?found"
    if "i < length (m_worker_threads g)" "m_worker_threads g ! i = ?w'" for g
  proof -
    from that(2) p(2) have "w_pc (m_worker_threads g ! i) = AtLoopTop \<or>
        w_pc (m_worker_threads g ! i) = AtWait" by simp
    from Loop_step_locked [OF that(1) refl this] that(2) p(3) show ?thesis by auto
  qed
  with fb p(1,2) show ?thesis by (simp only: Let_def w') blast
qed

theorem fetch_stops_at_first_missing_witness:
  "0 < length (m_worker_threads sample_fetching) \<and>
   w_pc (m_worker_threads sample_fetching ! 0) = AtFetch \<and>
   w_in_flight_fetches_count (m_worker_threads sample_fetching ! 0) \<noteq> 0 \<and>
   w_outpoints (m_worker_threads sample_fetching ! 0) = [opB, opA] \<and>
   w_pairs (m_worker_threads (Loop_step 0 sample_fetching) ! 0) = [(opB, coinB)] \<and>
   m_pairs (Loop_step 0 (Loop_step 0 sample_fetching)) = [(opB, coinB)]"
proof -
  have h: "0 < length (m_worker_threads sample_fetching)"
    "w_pc (m_worker_threads sample_fetching ! 0) = AtFetch"
    "w_in_flight_fetches_count (m_worker_threads sample_fetching ! 0) \<noteq> 0"
    by (simp_all add: sample_fetching_def)
  have o: "w_outpoints (m_worker_threads sample_fetching ! 0) = [opB, opA]"
    by (simp add: sample_fetching_def)
  have found: "map (\<lambda>p. (p, the (m_db sample_fetching p)))
      (takeWhile (\<lambda>p. m_db sample_fetching p \<noteq> None)
         (w_outpoints (m_worker_threads sample_fetching ! 0))) = [(opB, coinB)]"
    by (simp add: sample_fetching_def sample_defs)
  from fetch_stops_at_first_missing [OF h]
  have a: "w_pairs (m_worker_threads (Loop_step 0 sample_fetching) ! 0) = [(opB, coinB)]"
    and b: "\<forall>g. 0 < length (m_worker_threads g) \<and>
          m_worker_threads g ! 0 = m_worker_threads (Loop_step 0 sample_fetching) ! 0 \<longrightarrow>
          m_pairs (Loop_step 0 g) = m_pairs g @ [(opB, coinB)]"
    unfolding Let_def found by blast+
  have "0 < length (m_worker_threads (Loop_step 0 sample_fetching))"
    "m_pairs (Loop_step 0 sample_fetching) = []"
    by (simp_all add: sample_fetching_def run_defs)
  with b have "m_pairs (Loop_step 0 (Loop_step 0 sample_fetching)) = [(opB, coinB)]"
    by simp
  with h o a show ?thesis by simp
qed




text \<open>
  C6. When a worker claims a batch (the queue is not empty, no stop is requested, there
  is at least one worker), the queue loses
  \<open>max(1, min(batch_size, queue_length, in_flight / worker_count))\<close> outpoints, taken from
  its end, and they are the worker's batch; \<open>in_flight\<close> is the counter at that moment,
  the division is integer division. Sizes are below \<open>2 ^ 64\<close>.
\<close>

theorem claimed_batch_size:
  assumes "m_outpoints f \<noteq> []" and "\<not> m_request_stop f"
    and "0 < length (m_worker_threads f)" and "length (m_worker_threads f) < 2 ^ 64"
    and "length (m_outpoints f) < 2 ^ 64"
  shows "let n = max 1 (min (min (unat (m_batch_size f)) (length (m_outpoints f)))
                     (unat (m_in_flight_fetches_count f) div length (m_worker_threads f)));
             f' = Loop_claim i w f
         in n \<le> length (m_outpoints f) \<and>
            length (m_outpoints f) - length (m_outpoints f') = n \<and>
            m_outpoints f' = take (length (m_outpoints f) - n) (m_outpoints f) \<and>
            (i < length (m_worker_threads f) \<longrightarrow>
               w_outpoints (m_worker_threads f' ! i) =
                 drop (length (m_outpoints f) - n) (m_outpoints f) \<and>
               unat (w_in_flight_fetches_count (m_worker_threads f' ! i)) = n)"
proof -
  let ?q = "m_outpoints f"
  let ?ts = "of_nat (length (m_worker_threads f)) :: 64 word"
  let ?n = "max 1 (min (min (unat (m_batch_size f)) (length ?q))
              (unat (m_in_flight_fetches_count f) div length (m_worker_threads f)))"
  have ts: "?ts \<noteq> 0" using assms(3,4) by (rule of_nat_nonzero)
  have uts: "unat ?ts = length (m_worker_threads f)" using assms(4) by (simp add: unat_of_nat)
  from batch_count_nat [OF ts assms(5), of "m_batch_size f" "m_in_flight_fetches_count f"]
  obtain k where bc: "batch_count (of_nat (length ?q)) (m_batch_size f)
        (m_in_flight_fetches_count f) ?ts = Some k"
    and kn: "unat k = ?n"
    by (auto simp only: uts min.commute)
  from batch_count_bounds [OF bc] assms(1) have k: "1 \<le> unat k" "unat k \<le> length ?q"
    by simp_all
  note eq = Loop_claim_take [OF assms(1,2) bc pop_batch_Some [OF k(2)], where i = i and w = w]
  have main: "unat k \<le> length ?q \<and>
        length ?q - length (m_outpoints (Loop_claim i w f)) = unat k \<and>
        m_outpoints (Loop_claim i w f) = take (length ?q - unat k) ?q \<and>
        (i < length (m_worker_threads f) \<longrightarrow>
           w_outpoints (m_worker_threads (Loop_claim i w f) ! i) = drop (length ?q - unat k) ?q \<and>
           unat (w_in_flight_fetches_count (m_worker_threads (Loop_claim i w f) ! i)) = unat k)"
    using k by (simp add: eq)
  show ?thesis unfolding Let_def kn [symmetric] by (rule main)
qed

theorem claimed_batch_size_witness:
  "m_outpoints sample_queued \<noteq> [] \<and> \<not> m_request_stop sample_queued \<and>
   0 < length (m_worker_threads sample_queued) \<and>
   length (m_worker_threads sample_queued) < 2 ^ 64 \<and>
   length (m_outpoints sample_queued) < 2 ^ 64 \<and>
   unat (m_batch_size sample_queued) = 3 \<and>
   unat (m_in_flight_fetches_count sample_queued) div length (m_worker_threads sample_queued) = 2 \<and>
   length (m_outpoints sample_queued) = 5 \<and>
   length (m_outpoints (Loop_claim 0 worker_init sample_queued)) = 3 \<and>
   w_outpoints (m_worker_threads (Loop_claim 0 worker_init sample_queued) ! 0) = [opB, opA]"
proof -
  have h: "m_outpoints sample_queued \<noteq> []" "\<not> m_request_stop sample_queued"
    "0 < length (m_worker_threads sample_queued)"
    "length (m_worker_threads sample_queued) < 2 ^ 64"
    "length (m_outpoints sample_queued) < 2 ^ 64"
    by (simp_all add: sample_queued_def InputFetcher_init_def)
  show ?thesis
    using claimed_batch_size [OF h, of 0 worker_init] h
    by (simp add: Let_def sample_queued_def InputFetcher_init_def)
qed

text \<open>
  C10. With a queue that is not empty and a worker count that is not zero, the batch
  size is computed (no division by zero), it is at least 1 and at most the length of the
  queue, whatever the in-flight counter and the batch size are, so taking that many
  elements from the end of the queue is in bounds.
\<close>

theorem claimed_batch_in_bounds:
  assumes "q \<noteq> []" and "threads_size \<noteq> 0"
  shows "\<exists>k. batch_count (of_nat (length q)) batch_size in_flight threads_size = Some k \<and>
             1 \<le> unat k \<and> unat k \<le> length q \<and>
             pop_batch k q = Some (take (length q - unat k) q, drop (length q - unat k) q)"
proof -
  obtain k where bc: "batch_count (of_nat (length q)) batch_size in_flight threads_size = Some k"
    using batch_count_Some [OF assms(2)] by blast
  from batch_count_bounds [OF bc] assms(1) have k: "1 \<le> unat k" "unat k \<le> length q"
    by simp_all
  from bc k pop_batch_Some [OF k(2)] show ?thesis by blast
qed

theorem claimed_batch_in_bounds_witness:
  "[opA] \<noteq> [] \<and> (2 :: 64 word) \<noteq> 0 \<and>
   batch_count (of_nat (length [opA])) 2 0 2 = Some 1 \<and>
   pop_batch 1 [opA] = Some ([], [opA])"
  using claimed_batch_in_bounds [of "[opA]" 2 2 0]
  by (simp add: batch_count_def pop_batch_def)

end
